theory Spec2Isabelle
  imports Complex_Main "HOL-Library.AList"
begin

section \<open>Python values and dictionaries\<close>

text \<open>
  Metadata dictionaries hold arbitrary YAML/JSON values. A dictionary is an association
  list in insertion order, read through \<open>map_of\<close>; the float literal \<open>0.7\<close> is the
  rational \<open>7/10\<close> (no arithmetic is ever done on it).
\<close>

datatype pyval =
    PyNone
  | PyBool bool
  | PyInt int
  | PyFloat rat
  | PyStr string
  | PyList "pyval list"
  | PyDict "(string \<times> pyval) list"

type_synonym pydict = "(string \<times> pyval) list"

text \<open>Python truthiness, as used by \<open>if not data\<close> and \<open>if not content\<close>.\<close>

fun truthy :: "pyval \<Rightarrow> bool" where
  "truthy PyNone = False"
| "truthy (PyBool b) = b"
| "truthy (PyInt i) = (i \<noteq> 0)"
| "truthy (PyFloat r) = (r \<noteq> 0)"
| "truthy (PyStr s) = (s \<noteq> [])"
| "truthy (PyList xs) = (xs \<noteq> [])"
| "truthy (PyDict kvs) = (kvs \<noteq> [])"

text \<open>\<open>d.get(k, default)\<close>.\<close>

definition dict_get :: "pydict \<Rightarrow> string \<Rightarrow> pyval \<Rightarrow> pyval" where
  "dict_get d k dflt = (case map_of d k of None \<Rightarrow> dflt | Some v \<Rightarrow> v)"

datatype error =
    HTTPException nat string
  | ValueError string
  | AttributeError
  | IntegrityError
  | RedisError
  | JSONDecodeError
  | TypeError

section \<open>Versioning engine (core/versioning.py)\<close>

subsection \<open>compute_hash\<close>

text \<open>
  \<open>json.dumps(_, sort_keys=True)\<close> and \<open>hashlib.sha256(_).hexdigest()\<close> are library
  functions; they are parameters of the model. The dictionary \<open>hashable\<close> is handed to
  the serialiser with its four keys in sorted order, which is the order
  \<open>sort_keys=True\<close> emits them in.
\<close>

definition compute_hash ::
  "(pydict \<Rightarrow> string) \<Rightarrow> (string \<Rightarrow> string) \<Rightarrow> string \<Rightarrow> pydict \<Rightarrow> string" where
  "compute_hash json_dumps sha256_hex content metadata =
     (let hashable =
            [(''content'', PyStr content),
             (''model'', dict_get metadata ''model'' (PyStr '''')),
             (''temperature'', dict_get metadata ''temperature'' (PyFloat (7 / 10))),
             (''version'', dict_get metadata ''version'' (PyStr ''1.0.0''))];
          stable_str = json_dumps hashable
      in sha256_hex stable_str)"

subsection \<open>Stored versions\<close>

text \<open>
  A row of the table \<open>prompt_versions\<close> (core/models.py). The table is the list of its
  rows in insertion order. \<open>id\<close> is the primary key, \<open>hash\<close> is declared unique and
  \<open>parent_id\<close> is a nullable foreign key into the same table. Time stamps are natural
  numbers (a clock reading).
\<close>

datatype uuid = UUID nat

record prompt_version =
  pv_id :: uuid
  content :: string
  hash :: string
  parent_id :: "uuid option"
  author :: string
  timestamp :: nat
  tags :: pyval
  prompt_metadata :: pydict
  created_at :: nat

text \<open>
  \<open>query.order_by(desc(key)).first()\<close>: a row whose key is greatest, \<open>None\<close> on an empty
  result. Among rows of equal key the database is free to choose; the model takes the
  earliest of them in table order.
\<close>

fun first_desc :: "('a \<Rightarrow> nat) \<Rightarrow> 'a list \<Rightarrow> 'a option" where
  "first_desc key [] = None"
| "first_desc key (x # xs) =
     (case first_desc key xs of
        None \<Rightarrow> Some x
      | Some y \<Rightarrow> if key x < key y then Some y else Some x)"

definition get_current_head :: "prompt_version list \<Rightarrow> prompt_version option" where
  "get_current_head db = first_desc timestamp db"

definition get_version_by_hash :: "prompt_version list \<Rightarrow> string \<Rightarrow> prompt_version option" where
  "get_version_by_hash db version_hash = find (\<lambda>v. hash v = version_hash) db"

text \<open>
  \<open>create_version\<close>. The fresh primary key (\<open>uuid4()\<close>) and the clock reading
  (\<open>datetime.utcnow()\<close>) are arguments. The result is the table after the call together
  with the returned row or the exception raised. \<open>db.commit()\<close> raises
  \<open>IntegrityError\<close> and stores nothing when the new row breaks the primary key or the
  foreign key of \<open>parent_id\<close>; the uniqueness of \<open>hash\<close> cannot be broken here, since the
  row is only inserted when no row has that hash.
\<close>

definition create_version ::
  "(pydict \<Rightarrow> string) \<Rightarrow> (string \<Rightarrow> string) \<Rightarrow> uuid \<Rightarrow> nat \<Rightarrow>
   string \<Rightarrow> pydict \<Rightarrow> pyval \<Rightarrow> string \<Rightarrow> string \<Rightarrow> prompt_version list \<Rightarrow> uuid option \<Rightarrow>
   prompt_version list \<times> (error + prompt_version)" where
  "create_version json_dumps sha256_hex new_id now content0 metadata tags0 author0 message db parent =
     (let version_hash = compute_hash json_dumps sha256_hex content0 metadata;
          existing = find (\<lambda>v. hash v = version_hash) db
      in case existing of
           Some e \<Rightarrow> (db, Inr e)
         | None \<Rightarrow>
             (let full_metadata = AList.update ''commit_message'' (PyStr message) metadata;
                  new_version =
                    \<lparr>pv_id = new_id, content = content0, hash = version_hash,
                     parent_id = parent, author = author0, timestamp = now,
                     tags = tags0, prompt_metadata = full_metadata, created_at = now\<rparr>
              in if new_id \<in> set (map pv_id db) then (db, Inl IntegrityError)
                 else (case parent of
                         None \<Rightarrow> (db @ [new_version], Inr new_version)
                       | Some p \<Rightarrow>
                           if p \<in> set (map pv_id db) \<or> p = new_id
                           then (db @ [new_version], Inr new_version)
                           else (db, Inl IntegrityError))))"

text \<open>
  \<open>get_version_history\<close>. The \<open>while\<close> loop with its counter and its list of collected
  rows; \<open>limit\<close> and \<open>count\<close> are Python integers. A \<open>UUID\<close> object is always true, so
  \<open>if start_from\<close> and \<open>if current.parent_id\<close> test for \<open>None\<close>.
\<close>

function history_loop ::
  "prompt_version list \<Rightarrow> int \<Rightarrow> int \<Rightarrow> prompt_version option \<Rightarrow> prompt_version list \<Rightarrow>
   prompt_version list" where
  "history_loop db limit count current versions =
     (case current of
        None \<Rightarrow> versions
      | Some c \<Rightarrow>
          if count < limit then
            (case parent_id c of
               Some p \<Rightarrow>
                 history_loop db limit (count + 1) (find (\<lambda>v. pv_id v = p) db) (versions @ [c])
             | None \<Rightarrow> versions @ [c])
          else versions)"
  by pat_completeness auto
termination
  by (relation "measure (\<lambda>(db, limit, count, current, versions). nat (limit - count))") auto

definition get_version_history ::
  "prompt_version list \<Rightarrow> int \<Rightarrow> uuid option \<Rightarrow> prompt_version list" where
  "get_version_history db limit start_from =
     (let current =
            (case start_from of
               Some s \<Rightarrow> find (\<lambda>v. pv_id v = s) db
             | None \<Rightarrow> get_current_head db)
      in history_loop db limit 0 current [])"

subsection \<open>Prompt files\<close>

text \<open>
  \<open>str.strip()\<close>: the white space of Python among the code points below 256 is
  \<open>0x09\<close>--\<open>0x0D\<close>, \<open>0x1C\<close>--\<open>0x20\<close>, \<open>0x85\<close> and \<open>0xA0\<close>.
\<close>

definition py_isspace :: "char \<Rightarrow> bool" where
  "py_isspace c =
     (let n = (of_char c :: nat)
      in (9 \<le> n \<and> n \<le> 13) \<or> (28 \<le> n \<and> n \<le> 32) \<or> n = 133 \<or> n = 160)"

definition strip :: "string \<Rightarrow> string" where
  "strip s = rev (dropWhile py_isspace (rev (dropWhile py_isspace s)))"

record parsed_prompt =
  p_content :: string
  p_metadata :: pydict
  p_tags :: pyval

text \<open>
  \<open>parse_prompt_file\<close>, from the value \<open>yaml.safe_load\<close> returned and the stem of the
  file name. Calling \<open>.get\<close> on a value that is not a dictionary, or \<open>.strip\<close> on a
  content that is not a string, raises \<open>AttributeError\<close>.
\<close>

definition parse_prompt_file :: "string \<Rightarrow> pyval \<Rightarrow> error + parsed_prompt" where
  "parse_prompt_file stem data =
     (if \<not> truthy data then Inl (ValueError ''Empty or invalid YAML file'')
      else case data of
        PyDict d \<Rightarrow>
          (let content1 = dict_get d ''content'' (PyStr '''')
           in if \<not> truthy content1 then Inl (ValueError ''No content field'')
              else
                (let metadata =
                       [(''name'', dict_get d ''name'' (PyStr stem)),
                        (''version'', dict_get d ''version'' (PyStr ''1.0.0'')),
                        (''model'', dict_get d ''model'' (PyStr ''gpt-4'')),
                        (''temperature'', dict_get d ''temperature'' (PyFloat (7 / 10))),
                        (''max_tokens'', dict_get d ''max_tokens'' PyNone),
                        (''top_p'', dict_get d ''top_p'' PyNone)];
                     tags1 = dict_get d ''tags'' (PyList [])
                 in case content1 of
                      PyStr s \<Rightarrow>
                        Inr \<lparr>p_content = strip s, p_metadata = metadata, p_tags = tags1\<rparr>
                    | _ \<Rightarrow> Inl AttributeError))
      | _ \<Rightarrow> Inl AttributeError)"

text \<open>
  One round of the loop of \<open>commit_command\<close> (cli/commands.py): parse the staged file,
  take the current head as parent, create the version. An exception of either step
  leaves the loop, and nothing of that file is stored.
\<close>

definition commit_staged_file ::
  "(pydict \<Rightarrow> string) \<Rightarrow> (string \<Rightarrow> string) \<Rightarrow> uuid \<Rightarrow> nat \<Rightarrow>
   string \<Rightarrow> pyval \<Rightarrow> string \<Rightarrow> string \<Rightarrow> prompt_version list \<Rightarrow>
   prompt_version list \<times> (error + prompt_version)" where
  "commit_staged_file json_dumps sha256_hex new_id now stem data author0 message db =
     (case parse_prompt_file stem data of
        Inl e \<Rightarrow> (db, Inl e)
      | Inr parsed \<Rightarrow>
          (let current_head = get_current_head db;
               parent = map_option pv_id current_head
           in create_version json_dumps sha256_hex new_id now
                (p_content parsed) (p_metadata parsed) (p_tags parsed) author0 message db parent))"

section \<open>Deployment engine (deploy/engine.py)\<close>

text \<open>
  The Redis server as the engine sees it: the stored entries (key, time to live, value)
  and the outcome of the commands to come, \<open>True\<close> for a command that fails (connection
  refused, timeout, server error). Every command consumes one outcome; when the list is
  used up commands succeed. Expiry of entries is not modelled.
\<close>

record redis =
  entries :: "(string \<times> (nat \<times> string)) list"
  faults :: "bool list"

definition next_fault :: "redis \<Rightarrow> bool \<times> redis" where
  "next_fault r = (case faults r of [] \<Rightarrow> (False, r) | f # fs \<Rightarrow> (f, r\<lparr>faults := fs\<rparr>))"

definition redis_ping :: "redis \<Rightarrow> redis \<times> (error + unit)" where
  "redis_ping r =
     (let (f, r1) = next_fault r in if f then (r1, Inl RedisError) else (r1, Inr ()))"

definition redis_get :: "redis \<Rightarrow> string \<Rightarrow> redis \<times> (error + string option)" where
  "redis_get r k =
     (let (f, r1) = next_fault r
      in if f then (r1, Inl RedisError)
         else (r1, Inr (map_option snd (map_of (entries r1) k))))"

definition redis_setex :: "redis \<Rightarrow> string \<Rightarrow> nat \<Rightarrow> string \<Rightarrow> redis \<times> (error + unit)" where
  "redis_setex r k ttl v =
     (let (f, r1) = next_fault r
      in if f then (r1, Inl RedisError)
         else (r1\<lparr>entries := AList.update k (ttl, v) (entries r1)\<rparr>, Inr ()))"

text \<open>The pattern matcher of the server is a parameter.\<close>

definition redis_keys ::
  "(string \<Rightarrow> string \<Rightarrow> bool) \<Rightarrow> redis \<Rightarrow> string \<Rightarrow> redis \<times> (error + string list)" where
  "redis_keys glob_match r pattern =
     (let (f, r1) = next_fault r
      in if f then (r1, Inl RedisError)
         else (r1, Inr (filter (glob_match pattern) (map fst (entries r1)))))"

definition redis_delete :: "redis \<Rightarrow> string list \<Rightarrow> redis \<times> (error + nat)" where
  "redis_delete r ks =
     (let (f, r1) = next_fault r
      in if f then (r1, Inl RedisError)
         else (r1\<lparr>entries := filter (\<lambda>e. fst e \<notin> set ks) (entries r1)\<rparr>,
               Inr (length (filter (\<lambda>e. fst e \<in> set ks) (entries r1)))))"

record deployment_engine =
  redis_available :: bool

text \<open>\<open>DeploymentEngine.__init__\<close>: the flag is set only when the ping succeeded.\<close>

definition DeploymentEngine :: "redis \<Rightarrow> redis \<times> (error + deployment_engine)" where
  "DeploymentEngine r =
     (case redis_ping r of
        (r1, Inl e) \<Rightarrow> (r1, Inr \<lparr>redis_available = False\<rparr>)
      | (r1, Inr u) \<Rightarrow> (r1, Inr \<lparr>redis_available = True\<rparr>))"

definition get_cache_key :: "string \<Rightarrow> string option \<Rightarrow> string" where
  "get_cache_key env name =
     (case name of
        Some n \<Rightarrow>
          if n \<noteq> [] then ''promptops:prompt:'' @ env @ '':'' @ n
          else ''promptops:prompt:'' @ env @ '':default''
      | None \<Rightarrow> ''promptops:prompt:'' @ env @ '':default'')"

text \<open>
  \<open>get_from_cache\<close>, \<open>set_cache\<close> and \<open>invalidate_cache\<close>. Each has a body inside
  \<open>try\<close>, where an exception of a Redis command or of the JSON library leaves the body,
  and the handler \<open>except Exception\<close>, which returns \<open>None\<close>. \<open>json.loads\<close> and
  \<open>json.dumps\<close> are parameters; the cached snapshot is of any type.
\<close>

definition get_from_cache_try ::
  "(string \<Rightarrow> error + 'a) \<Rightarrow> redis \<Rightarrow> string \<Rightarrow> string option \<Rightarrow> redis \<times> (error + 'a option)" where
  "get_from_cache_try json_loads r env name =
     (let k = get_cache_key env name
      in case redis_get r k of
           (r1, Inl e) \<Rightarrow> (r1, Inl e)
         | (r1, Inr cached) \<Rightarrow>
             (case cached of
                None \<Rightarrow> (r1, Inr None)
              | Some c \<Rightarrow>
                  if c \<noteq> [] then
                    (case json_loads c of
                       Inl e \<Rightarrow> (r1, Inl e)
                     | Inr v \<Rightarrow> (r1, Inr (Some v)))
                  else (r1, Inr None)))"

definition get_from_cache ::
  "(string \<Rightarrow> error + 'a) \<Rightarrow> deployment_engine \<Rightarrow> redis \<Rightarrow> string \<Rightarrow> string option \<Rightarrow>
   redis \<times> (error + 'a option)" where
  "get_from_cache json_loads engine r env name =
     (if \<not> redis_available engine then (r, Inr None)
      else case get_from_cache_try json_loads r env name of
             (r1, Inl e) \<Rightarrow> (r1, Inr None)
           | (r1, Inr v) \<Rightarrow> (r1, Inr v))"

definition set_cache_try ::
  "('a \<Rightarrow> error + string) \<Rightarrow> redis \<Rightarrow> string \<Rightarrow> 'a \<Rightarrow> string option \<Rightarrow> nat \<Rightarrow>
   redis \<times> (error + unit)" where
  "set_cache_try json_dumps r env prompt_data name ttl =
     (let k = get_cache_key env name
      in case json_dumps prompt_data of
           Inl e \<Rightarrow> (r, Inl e)
         | Inr v \<Rightarrow> redis_setex r k ttl v)"

definition set_cache ::
  "('a \<Rightarrow> error + string) \<Rightarrow> deployment_engine \<Rightarrow> redis \<Rightarrow> string \<Rightarrow> 'a \<Rightarrow> string option \<Rightarrow>
   nat \<Rightarrow> redis \<times> (error + unit)" where
  "set_cache json_dumps engine r env prompt_data name ttl =
     (if \<not> redis_available engine then (r, Inr ())
      else case set_cache_try json_dumps r env prompt_data name ttl of
             (r1, Inl e) \<Rightarrow> (r1, Inr ())
           | (r1, Inr u) \<Rightarrow> (r1, Inr ()))"

definition invalidate_cache_try ::
  "(string \<Rightarrow> string \<Rightarrow> bool) \<Rightarrow> redis \<Rightarrow> string \<Rightarrow> redis \<times> (error + unit)" where
  "invalidate_cache_try glob_match r env =
     (let pattern = ''promptops:prompt:'' @ env @ '':*''
      in case redis_keys glob_match r pattern of
           (r1, Inl e) \<Rightarrow> (r1, Inl e)
         | (r1, Inr ks) \<Rightarrow>
             if ks \<noteq> [] then
               (case redis_delete r1 ks of
                  (r2, Inl e) \<Rightarrow> (r2, Inl e)
                | (r2, Inr n) \<Rightarrow> (r2, Inr ()))
             else (r1, Inr ()))"

definition invalidate_cache ::
  "(string \<Rightarrow> string \<Rightarrow> bool) \<Rightarrow> deployment_engine \<Rightarrow> redis \<Rightarrow> string \<Rightarrow>
   redis \<times> (error + unit)" where
  "invalidate_cache glob_match engine r env =
     (if \<not> redis_available engine then (r, Inr ())
      else case invalidate_cache_try glob_match r env of
             (r1, Inl e) \<Rightarrow> (r1, Inr ())
           | (r1, Inr u) \<Rightarrow> (r1, Inr ()))"

section \<open>Deployment endpoints (api/app.py)\<close>

text \<open>
  A row of the table \<open>deployments\<close> (core/models.py); \<open>id\<close> is the primary key. The
  database is the two tables the endpoints read and write.
\<close>

record deployment =
  dep_id :: uuid
  version_id :: uuid
  environment :: string
  deployed_at :: nat
  deployed_by :: string
  rollback_version_id :: "uuid option"
  is_active :: bool

record database =
  versions :: "prompt_version list"
  deployments :: "deployment list"

text \<open>
  Assigning \<open>is_active\<close> on a loaded row is flushed at \<open>db.commit()\<close> as an update of the
  row with that primary key.
\<close>

definition set_active :: "uuid \<Rightarrow> bool \<Rightarrow> deployment list \<Rightarrow> deployment list" where
  "set_active i b ds = map (\<lambda>d. if dep_id d = i then d\<lparr>is_active := b\<rparr> else d) ds"

record deploy_response =
  resp_success :: bool
  resp_version_hash :: string
  resp_environment :: string
  resp_deployed_at :: nat
  resp_message :: string

text \<open>
  \<open>deploy_version\<close>. The fresh primary key and the clock reading are arguments. The
  result is the database and the Redis server after the call and the response or the
  exception. Before \<open>db.commit()\<close> an exception leaves the database as it was; the cache
  is invalidated after the commit.
\<close>

definition deploy_version ::
  "(string \<Rightarrow> string \<Rightarrow> bool) \<Rightarrow> uuid \<Rightarrow> nat \<Rightarrow> string \<Rightarrow> string \<Rightarrow> string \<Rightarrow>
   database \<Rightarrow> redis \<Rightarrow> database \<times> redis \<times> (error + deploy_response)" where
  "deploy_version glob_match new_id now version_hash env actor db r =
     (case get_version_by_hash (versions db) version_hash of
        None \<Rightarrow> (db, r, Inl (HTTPException 404 (''Version not found: '' @ version_hash)))
      | Some version \<Rightarrow>
          (let current = filter (\<lambda>d. environment d = env \<and> is_active d) (deployments db);
               deactivated =
                 fold (\<lambda>dep ds. set_active (dep_id dep) False ds) current (deployments db);
               deployment =
                 \<lparr>dep_id = new_id, version_id = pv_id version, environment = env,
                  deployed_at = now, deployed_by = actor, rollback_version_id = None,
                  is_active = True\<rparr>
           in if new_id \<in> set (map dep_id (deployments db)) then (db, r, Inl IntegrityError)
              else
                (let db1 = db\<lparr>deployments := deactivated @ [deployment]\<rparr>
                 in case DeploymentEngine r of
                      (r1, Inl e) \<Rightarrow> (db1, r1, Inl e)
                    | (r1, Inr engine) \<Rightarrow>
                        (case invalidate_cache glob_match engine r1 env of
                           (r2, Inl e) \<Rightarrow> (db1, r2, Inl e)
                         | (r2, Inr u) \<Rightarrow>
                             (db1, r2,
                              Inr \<lparr>resp_success = True, resp_version_hash = hash version,
                                   resp_environment = env, resp_deployed_at = now,
                                   resp_message =
                                     ''Successfully deployed '' @ take 8 (hash version) @
                                     '' to '' @ env\<rparr>)))))"

record rollback_response =
  rb_success :: bool
  rolled_back_from :: string
  rolled_back_to :: string
  rb_environment :: string
  rb_message :: string

text \<open>
  \<open>rollback_deployment\<close>. The response reads the hashes of the two rows' versions
  through the relationship \<open>version\<close>, after the commit; a version that is not in the
  table would make that read fail with \<open>AttributeError\<close> (the foreign key of
  \<open>version_id\<close> excludes it).
\<close>

definition rollback_deployment ::
  "(string \<Rightarrow> string \<Rightarrow> bool) \<Rightarrow> string \<Rightarrow> database \<Rightarrow> redis \<Rightarrow>
   database \<times> redis \<times> (error + rollback_response)" where
  "rollback_deployment glob_match env db r =
     (case first_desc deployed_at
             (filter (\<lambda>d. environment d = env \<and> is_active d) (deployments db)) of
        None \<Rightarrow> (db, r, Inl (HTTPException 404 (''No active deployment in '' @ env)))
      | Some current \<Rightarrow>
          (case first_desc deployed_at
                  (filter (\<lambda>d. environment d = env \<and> dep_id d \<noteq> dep_id current)
                     (deployments db)) of
             None \<Rightarrow> (db, r, Inl (HTTPException 400 ''No previous deployment to rollback to''))
           | Some previous \<Rightarrow>
               (let db1 = db\<lparr>deployments :=
                            set_active (dep_id previous) True
                              (set_active (dep_id current) False (deployments db))\<rparr>
                in case DeploymentEngine r of
                     (r1, Inl e) \<Rightarrow> (db1, r1, Inl e)
                   | (r1, Inr engine) \<Rightarrow>
                       (case invalidate_cache glob_match engine r1 env of
                          (r2, Inl e) \<Rightarrow> (db1, r2, Inl e)
                        | (r2, Inr u) \<Rightarrow>
                            (case find (\<lambda>v. pv_id v = version_id current) (versions db) of
                               None \<Rightarrow> (db1, r2, Inl AttributeError)
                             | Some vc \<Rightarrow>
                                 (case find (\<lambda>v. pv_id v = version_id previous) (versions db) of
                                    None \<Rightarrow> (db1, r2, Inl AttributeError)
                                  | Some vp \<Rightarrow>
                                      (db1, r2,
                                       Inr \<lparr>rb_success = True,
                                            rolled_back_from = take 8 (hash vc),
                                            rolled_back_to = take 8 (hash vp),
                                            rb_environment = env,
                                            rb_message =
                                              ''Rolled back to '' @ take 8 (hash vp)\<rparr>)))))))"

subsection \<open>Sequences of requests\<close>

text \<open>
  The requests that change deployments, handled one after the other (each in its own
  transaction); the state after a request is what the endpoint left, whatever it answered.
\<close>

datatype request =
    Deploy string string string uuid nat
  | Rollback string

fun handle ::
  "(string \<Rightarrow> string \<Rightarrow> bool) \<Rightarrow> request \<Rightarrow> database \<times> redis \<Rightarrow> database \<times> redis" where
  "handle glob_match (Deploy version_hash env actor new_id now) (db, r) =
     (case deploy_version glob_match new_id now version_hash env actor db r of
        (db1, r1, res) \<Rightarrow> (db1, r1))"
| "handle glob_match (Rollback env) (db, r) =
     (case rollback_deployment glob_match env db r of
        (db1, r1, res) \<Rightarrow> (db1, r1))"

fun serve ::
  "(string \<Rightarrow> string \<Rightarrow> bool) \<Rightarrow> request list \<Rightarrow> database \<times> redis \<Rightarrow> database \<times> redis" where
  "serve glob_match [] s = s"
| "serve glob_match (q # qs) s = serve glob_match qs (handle glob_match q s)"

definition active_rows :: "string \<Rightarrow> deployment list \<Rightarrow> deployment list" where
  "active_rows env ds = filter (\<lambda>d. environment d = env \<and> is_active d) ds"

subsection \<open>Example rows\<close>

text \<open>A row with the given key, parent, time stamp and hash, used in worked examples.\<close>

definition version_row :: "nat \<Rightarrow> nat option \<Rightarrow> nat \<Rightarrow> string \<Rightarrow> prompt_version" where
  "version_row i p t h =
     \<lparr>pv_id = UUID i, content = '''', hash = h, parent_id = map_option UUID p,
      author = '''', timestamp = t, tags = PyList [], prompt_metadata = [], created_at = t\<rparr>"

definition deployment_row :: "nat \<Rightarrow> nat \<Rightarrow> string \<Rightarrow> nat \<Rightarrow> bool \<Rightarrow> deployment" where
  "deployment_row i v env t a =
     \<lparr>dep_id = UUID i, version_id = UUID v, environment = env, deployed_at = t,
      deployed_by = ''ci'', rollback_version_id = None, is_active = a\<rparr>"

section \<open>Properties of compute_hash\<close>

text \<open>
  Claim C3. The hash is a function of the content and of what the metadata gives for
  \<open>model\<close>, \<open>temperature\<close> and \<open>version\<close> only: two calls that agree on the content and
  on these three look-ups return the same hash, whatever else the two metadata
  dictionaries hold. (Tags, author, timestamp and commit message are not arguments of
  \<open>compute_hash\<close> at all.)
\<close>

theorem compute_hash_deterministic:
  assumes "prompt_a = prompt_b"
    and "map_of metadata1 ''model'' = map_of metadata2 ''model''"
    and "map_of metadata1 ''temperature'' = map_of metadata2 ''temperature''"
    and "map_of metadata1 ''version'' = map_of metadata2 ''version''"
  shows "compute_hash json_dumps sha256_hex prompt_a metadata1 =
         compute_hash json_dumps sha256_hex prompt_b metadata2"
  using assms by (simp add: compute_hash_def dict_get_def)

theorem compute_hash_deterministic_witness:
  "compute_hash (\<lambda>d. concat (map fst d)) rev ''Summarize''
     [(''model'', PyStr ''gpt-4''), (''name'', PyStr ''a''), (''max_tokens'', PyInt 5)] =
   compute_hash (\<lambda>d. concat (map fst d)) rev ''Summarize''
     [(''commit_message'', PyStr ''second''), (''model'', PyStr ''gpt-4'')]"
  using compute_hash_deterministic
    [of "''Summarize''" "''Summarize''"
        "[(''model'', PyStr ''gpt-4''), (''name'', PyStr ''a''), (''max_tokens'', PyInt 5)]"
        "[(''commit_message'', PyStr ''second''), (''model'', PyStr ''gpt-4'')]"
        "\<lambda>d. concat (map fst d)" rev]
  by simp

section \<open>The history walk\<close>

declare history_loop.simps [simp del]

lemma history_loop_acc:
  "history_loop db limit count cur vs = vs @ history_loop db limit count cur []"
proof (induction "nat (limit - count)" arbitrary: count cur vs)
  case 0
  then have "\<not> count < limit" by simp
  then show ?case by (cases cur) (simp_all add: history_loop.simps [of db limit count])
next
  case (Suc n)
  then have lt: "count < limit" and n: "n = nat (limit - (count + 1))" by simp_all
  show ?case
  proof (cases cur)
    case None
    then show ?thesis by (simp add: history_loop.simps [of db limit count])
  next
    case (Some c)
    show ?thesis
    proof (cases "parent_id c")
      case None
      with Some lt show ?thesis by (simp add: history_loop.simps [of db limit count])
    next
      case (Some p)
      note ih = Suc.hyps(1) [OF n, of "find (\<lambda>v. pv_id v = p) db"]
      have "history_loop db limit count cur vs
          = history_loop db limit (count + 1) (find (\<lambda>v. pv_id v = p) db) (vs @ [c])"
        using \<open>cur = Some c\<close> Some lt by (simp add: history_loop.simps [of db limit count])
      also have "\<dots> = (vs @ [c]) @ history_loop db limit (count + 1) (find (\<lambda>v. pv_id v = p) db) []"
        by (rule ih)
      also have "\<dots> = vs @ history_loop db limit (count + 1) (find (\<lambda>v. pv_id v = p) db) ([] @ [c])"
        using ih [of "[] @ [c]"] by simp
      also have "\<dots> = vs @ history_loop db limit count cur []"
        using \<open>cur = Some c\<close> Some lt by (simp add: history_loop.simps [of db limit count])
      finally show ?thesis .
    qed
  qed
qed

lemma history_loop_None: "history_loop db limit count None [] = []"
  by (simp add: history_loop.simps)

lemma history_loop_Some:
  "history_loop db limit count (Some c) [] =
     (if count < limit then
        (case parent_id c of
           Some p \<Rightarrow> c # history_loop db limit (count + 1) (find (\<lambda>v. pv_id v = p) db) []
         | None \<Rightarrow> [c])
      else [])"
  using history_loop_acc [of db limit "count + 1" _ "[c]"]
  by (simp add: history_loop.simps [of db limit count] split: option.splits)

lemma history_loop_length:
  "int (length (history_loop db limit count cur [])) \<le> max 0 (limit - count)"
proof (induction "nat (limit - count)" arbitrary: count cur)
  case 0
  then show ?case by (cases cur) (simp_all add: history_loop_None history_loop_Some)
next
  case (Suc n)
  then have lt: "count < limit" and n: "n = nat (limit - (count + 1))" by simp_all
  show ?case
  proof (cases cur)
    case None
    then show ?thesis by (simp add: history_loop_None)
  next
    case (Some c)
    show ?thesis
    proof (cases "parent_id c")
      case None
      with Some lt show ?thesis by (simp add: history_loop_Some)
    next
      case (Some p)
      from Suc.hyps(1) [OF n, of "find (\<lambda>v. pv_id v = p) db"] lt Some \<open>cur = Some c\<close>
      show ?thesis by (simp add: history_loop_Some)
    qed
  qed
qed

lemma history_loop_hd:
  "history_loop db limit count cur [] \<noteq> [] \<Longrightarrow> cur = Some (hd (history_loop db limit count cur []))"
  by (cases cur) (auto simp: history_loop_None history_loop_Some split: option.splits if_splits)

lemma history_loop_nonempty:
  "count < limit \<Longrightarrow> history_loop db limit count (Some c) [] \<noteq> []"
  by (auto simp: history_loop_Some split: option.splits)

lemma history_loop_chain:
  "Suc i < length (history_loop db limit count cur []) \<Longrightarrow>
   parent_id (history_loop db limit count cur [] ! i) = Some (pv_id (history_loop db limit count cur [] ! Suc i))"
proof (induction "nat (limit - count)" arbitrary: count cur i)
  case 0
  then show ?case by (cases cur) (simp_all add: history_loop_None history_loop_Some)
next
  case (Suc n)
  then have lt: "count < limit" and n: "n = nat (limit - (count + 1))" by simp_all
  show ?case
  proof (cases cur)
    case None
    with Suc.prems show ?thesis by (simp add: history_loop_None)
  next
    case (Some c)
    show ?thesis
    proof (cases "parent_id c")
      case None
      with Some Suc.prems lt show ?thesis by (simp add: history_loop_Some)
    next
      case (Some p)
      let ?nxt = "find (\<lambda>v. pv_id v = p) db"
      let ?rest = "history_loop db limit (count + 1) ?nxt []"
      have eq: "history_loop db limit count cur [] = c # ?rest"
        using \<open>cur = Some c\<close> Some lt by (simp add: history_loop_Some)
      show ?thesis
      proof (cases i)
        case 0
        with Suc.prems eq have ne: "?rest \<noteq> []" by auto
        from history_loop_hd [OF ne] have "?nxt = Some (hd ?rest)" .
        then have "pv_id (hd ?rest) = p" by (auto simp: find_Some_iff)
        with 0 eq ne Some show ?thesis by (simp add: hd_conv_nth)
      next
        case (Suc j)
        with Suc.prems eq have "Suc j < length ?rest" by simp
        from Suc.hyps(1) [OF n this] Suc eq show ?thesis by simp
      qed
    qed
  qed
qed

lemma history_loop_stop:
  "history_loop db limit count cur [] \<noteq> [] \<Longrightarrow>
   (case parent_id (last (history_loop db limit count cur [])) of
      None \<Rightarrow> True
    | Some p \<Rightarrow> int (length (history_loop db limit count cur [])) = limit - count
               \<or> find (\<lambda>v. pv_id v = p) db = None)"
proof (induction "nat (limit - count)" arbitrary: count cur)
  case 0
  then show ?case by (cases cur) (simp_all add: history_loop_None history_loop_Some)
next
  case (Suc n)
  then have lt: "count < limit" and n: "n = nat (limit - (count + 1))" by simp_all
  show ?case
  proof (cases cur)
    case None
    with Suc.prems show ?thesis by (simp add: history_loop_None)
  next
    case (Some c)
    show ?thesis
    proof (cases "parent_id c")
      case None
      with Some lt show ?thesis by (simp add: history_loop_Some)
    next
      case (Some p)
      let ?nxt = "find (\<lambda>v. pv_id v = p) db"
      let ?rest = "history_loop db limit (count + 1) ?nxt []"
      have eq: "history_loop db limit count cur [] = c # ?rest"
        using \<open>cur = Some c\<close> Some lt by (simp add: history_loop_Some)
      show ?thesis
      proof (cases "?rest = []")
        case True
        have "?nxt = None \<or> \<not> count + 1 < limit"
          using True by (cases ?nxt) (auto simp: history_loop_Some split: option.splits if_splits)
        with eq True Some lt show ?thesis by auto
      next
        case False
        from Suc.hyps(1) [OF n False] eq False show ?thesis
          by (auto split: option.splits)
      qed
    qed
  qed
qed

lemma find_in_set: "find P xs = Some x \<Longrightarrow> x \<in> set xs"
  by (induction xs) (auto split: if_splits)

lemma history_loop_subset:
  "cur \<in> Some ` set db \<or> cur = None \<Longrightarrow> set (history_loop db limit count cur []) \<subseteq> set db"
proof (induction "nat (limit - count)" arbitrary: count cur)
  case 0
  then show ?case by (cases cur) (simp_all add: history_loop_None history_loop_Some)
next
  case (Suc n)
  then have lt: "count < limit" and n: "n = nat (limit - (count + 1))" by simp_all
  show ?case
  proof (cases cur)
    case None
    then show ?thesis by (simp add: history_loop_None)
  next
    case (Some c)
    with Suc.prems have c: "c \<in> set db" by auto
    show ?thesis
    proof (cases "parent_id c")
      case None
      with Some c lt show ?thesis by (simp add: history_loop_Some)
    next
      case (Some p)
      let ?nxt = "find (\<lambda>v. pv_id v = p) db"
      have "?nxt \<in> Some ` set db \<or> ?nxt = None"
        by (cases ?nxt) (auto dest: find_in_set)
      from Suc.hyps(1) [OF n this] c Some \<open>cur = Some c\<close> lt show ?thesis
        by (simp add: history_loop_Some)
    qed
  qed
qed

section \<open>Deduplication\<close>

lemma first_desc_None: "first_desc key xs = None \<longleftrightarrow> xs = []"
  by (induction xs) (auto split: option.splits)

lemma first_desc_max:
  "first_desc key xs = Some x \<Longrightarrow> x \<in> set xs \<and> (\<forall>y\<in>set xs. key y \<le> key x)"
proof (induction xs arbitrary: x)
  case Nil
  then show ?case by simp
next
  case (Cons a xs)
  show ?case
  proof (cases "first_desc key xs")
    case None
    then have "xs = []" by (simp add: first_desc_None)
    with Cons.prems show ?thesis by simp
  next
    case (Some y)
    from Cons.IH [OF Some] have y: "y \<in> set xs" "\<forall>z\<in>set xs. key z \<le> key y" by simp_all
    show ?thesis
    proof (cases "key a < key y")
      case True
      with Cons.prems Some have "x = y" by simp
      with y True show ?thesis by auto
    next
      case False
      with Cons.prems Some have "x = a" by simp
      with y False show ?thesis by fastforce
    qed
  qed
qed

lemma find_append_one:
  "find P (xs @ [x]) = (case find P xs of Some y \<Rightarrow> Some y | None \<Rightarrow> if P x then Some x else None)"
  by (induction xs) auto

lemma filter_hash_one:
  "distinct (map hash db) \<Longrightarrow> find (\<lambda>v. hash v = h) db = Some e \<Longrightarrow>
   length (filter (\<lambda>v. hash v = h) db) = 1"
proof (induction db)
  case Nil
  then show ?case by simp
next
  case (Cons a db)
  show ?case
  proof (cases "hash a = h")
    case True
    with Cons.prems have "h \<notin> hash ` set db" by simp
    then have "\<forall>v\<in>set db. hash v \<noteq> h" by blast
    then have "filter (\<lambda>v. hash v = h) db = []" by (simp add: filter_empty_conv)
    with True show ?thesis by simp
  next
    case False
    with Cons show ?thesis by simp
  qed
qed

lemma filter_hash_none:
  "find (\<lambda>v. hash v = h) db = None \<Longrightarrow> filter (\<lambda>v. hash v = h) db = []"
  by (simp add: find_None_iff filter_empty_conv)

lemma compute_hash_agree:
  "map_of m1 ''model'' = map_of m2 ''model'' \<Longrightarrow>
   map_of m1 ''temperature'' = map_of m2 ''temperature'' \<Longrightarrow>
   map_of m1 ''version'' = map_of m2 ''version'' \<Longrightarrow>
   compute_hash jd sha prompt m1 = compute_hash jd sha prompt m2"
  by (simp add: compute_hash_def dict_get_def)

lemma create_version_cases:
  assumes "create_version jd sha new_id now prompt md tg au msg db par = (db1, Inr v)"
  shows "(find (\<lambda>x. hash x = compute_hash jd sha prompt md) db = Some v \<and> db1 = db)
       \<or> (find (\<lambda>x. hash x = compute_hash jd sha prompt md) db = None \<and> db1 = db @ [v] \<and>
          new_id \<notin> set (map pv_id db) \<and>
          v = \<lparr>pv_id = new_id, content = prompt, hash = compute_hash jd sha prompt md,
               parent_id = par, author = au, timestamp = now, tags = tg,
               prompt_metadata = AList.update ''commit_message'' (PyStr msg) md,
               created_at = now\<rparr>)"
  using assms
  by (auto simp: create_version_def Let_def split: option.splits if_splits)


text \<open>
  Claim C2. Committing twice with the same content and the same \<open>model\<close>, \<open>temperature\<close>
  and \<open>version\<close> entries, whatever the identifiers, times, tags, authors, messages and
  parents of the two calls, returns the same stored row both times: the second call
  returns the row of the first and leaves the table as it is, and the table holds exactly
  one row with that hash. When the first call found no row with the hash, the row it
  stored carries the first call's identifier, parent, tags and commit message.
\<close>

theorem create_version_idempotent:
  assumes uniq: "distinct (map hash db)"
    and m: "map_of metadata_a ''model'' = map_of metadata_b ''model''"
    and t: "map_of metadata_a ''temperature'' = map_of metadata_b ''temperature''"
    and vr: "map_of metadata_a ''version'' = map_of metadata_b ''version''"
    and first: "create_version json_dumps sha256_hex id_a now_a prompt metadata_a tags_a author_a message_a db parent_a
                  = (db', Inr v)"
  shows "create_version json_dumps sha256_hex id_b now_b prompt metadata_b tags_b author_b message_b db' parent_b
           = (db', Inr v)
       \<and> length (filter (\<lambda>x. hash x = compute_hash json_dumps sha256_hex prompt metadata_a) db') = 1
       \<and> hash v = compute_hash json_dumps sha256_hex prompt metadata_a
       \<and> distinct (map hash db')
       \<and> (find (\<lambda>x. hash x = compute_hash json_dumps sha256_hex prompt metadata_a) db = None \<longrightarrow>
            pv_id v = id_a \<and> parent_id v = parent_a \<and> tags v = tags_a \<and>
            map_of (prompt_metadata v) ''commit_message'' = Some (PyStr message_a) \<and>
            length db' = Suc (length db))"
proof -
  let ?h = "compute_hash json_dumps sha256_hex prompt metadata_a"
  have h2: "compute_hash json_dumps sha256_hex prompt metadata_b = ?h"
    using compute_hash_agree [OF m t vr] by simp
  from create_version_cases [OF first]
  consider (old) "find (\<lambda>x. hash x = ?h) db = Some v" "db' = db"
    | (new) "find (\<lambda>x. hash x = ?h) db = None" "db' = db @ [v]" "hash v = ?h"
        "pv_id v = id_a" "parent_id v = parent_a" "tags v = tags_a"
        "prompt_metadata v = AList.update ''commit_message'' (PyStr message_a) metadata_a"
    by auto
  then show ?thesis
  proof cases
    case old
    have hv: "hash v = ?h" using old(1) by (auto simp: find_Some_iff)
    have "create_version json_dumps sha256_hex id_b now_b prompt metadata_b tags_b author_b message_b db' parent_b
            = (db', Inr v)"
      using old by (simp add: create_version_def h2)
    moreover have "length (filter (\<lambda>x. hash x = ?h) db') = 1"
      using filter_hash_one [OF uniq old(1)] old(2) by simp
    ultimately show ?thesis using old uniq hv by simp
  next
    case new
    have f1: "find (\<lambda>x. hash x = ?h) db' = Some v"
      using new by (simp add: find_append_one)
    have "create_version json_dumps sha256_hex id_b now_b prompt metadata_b tags_b author_b message_b db' parent_b
            = (db', Inr v)"
      using f1 by (simp add: create_version_def h2)
    moreover have "length (filter (\<lambda>x. hash x = ?h) db') = 1"
      using filter_hash_none [OF new(1)] new(2,3) by simp
    moreover have "distinct (map hash db')"
      using uniq new(1,2,3) by (auto simp: find_None_iff)
    moreover have "map_of (prompt_metadata v) ''commit_message'' = Some (PyStr message_a)"
      using new(7) by (simp add: update_conv')
    ultimately show ?thesis using new by simp
  qed
qed

theorem create_version_idempotent_witness:
  "create_version (\<lambda>d. concat (map fst d)) rev (UUID 1) 10 ''hello''
       [(''model'', PyStr ''gpt-4'')] (PyList [PyStr ''x'']) ''alice'' ''first'' [] None
     = ([\<lparr>pv_id = UUID 1, content = ''hello'', hash = ''noisreverutarepmetledomtnetnoc'',
         parent_id = None, author = ''alice'', timestamp = 10, tags = PyList [PyStr ''x''],
         prompt_metadata = [(''model'', PyStr ''gpt-4''), (''commit_message'', PyStr ''first'')],
         created_at = 10\<rparr>],
        Inr \<lparr>pv_id = UUID 1, content = ''hello'', hash = ''noisreverutarepmetledomtnetnoc'',
         parent_id = None, author = ''alice'', timestamp = 10, tags = PyList [PyStr ''x''],
         prompt_metadata = [(''model'', PyStr ''gpt-4''), (''commit_message'', PyStr ''first'')],
         created_at = 10\<rparr>)
   \<and> create_version (\<lambda>d. concat (map fst d)) rev (UUID 2) 20 ''hello''
       [(''name'', PyStr ''p''), (''model'', PyStr ''gpt-4'')] (PyList []) ''bob'' ''second''
       [\<lparr>pv_id = UUID 1, content = ''hello'', hash = ''noisreverutarepmetledomtnetnoc'',
         parent_id = None, author = ''alice'', timestamp = 10, tags = PyList [PyStr ''x''],
         prompt_metadata = [(''model'', PyStr ''gpt-4''), (''commit_message'', PyStr ''first'')],
         created_at = 10\<rparr>]
       (Some (UUID 1))
     = ([\<lparr>pv_id = UUID 1, content = ''hello'', hash = ''noisreverutarepmetledomtnetnoc'',
         parent_id = None, author = ''alice'', timestamp = 10, tags = PyList [PyStr ''x''],
         prompt_metadata = [(''model'', PyStr ''gpt-4''), (''commit_message'', PyStr ''first'')],
         created_at = 10\<rparr>],
        Inr \<lparr>pv_id = UUID 1, content = ''hello'', hash = ''noisreverutarepmetledomtnetnoc'',
         parent_id = None, author = ''alice'', timestamp = 10, tags = PyList [PyStr ''x''],
         prompt_metadata = [(''model'', PyStr ''gpt-4''), (''commit_message'', PyStr ''first'')],
         created_at = 10\<rparr>)"
  (is "?first \<and> ?second")
proof -
  have first: ?first
    by (simp add: create_version_def compute_hash_def dict_get_def Let_def)
  have uniq: "distinct (map hash [])" by simp
  have "map_of [(''model'', PyStr ''gpt-4'')] ''model''
      = map_of [(''name'', PyStr ''p''), (''model'', PyStr ''gpt-4'')] ''model''"
    and "map_of [(''model'', PyStr ''gpt-4'')] ''temperature''
      = map_of [(''name'', PyStr ''p''), (''model'', PyStr ''gpt-4'')] ''temperature''"
    and "map_of [(''model'', PyStr ''gpt-4'')] ''version''
      = map_of [(''name'', PyStr ''p''), (''model'', PyStr ''gpt-4'')] ''version''"
    by simp_all
  from create_version_idempotent [OF uniq this first] have ?second by blast
  with first show ?thesis by blast
qed

section \<open>History\<close>

text \<open>
  Claim C8. \<open>get_version_history\<close> is a total function (its loop is bounded by the
  counter). It returns at most \<open>limit\<close> rows, all of the table; each row's \<open>parent_id\<close>
  is the \<open>id\<close> of the row after it; a non-empty result starts at the row with
  \<open>id = start_from\<close> or, when \<open>start_from\<close> is omitted, at a row with the greatest
  time stamp; with a positive limit and an existing start the result is not empty; and the
  last row returned has no parent, unless the limit was reached or the parent is not in
  the table.
\<close>

theorem get_version_history_walk:
  "let r = get_version_history db limit start_from
   in int (length r) \<le> max 0 limit
    \<and> set r \<subseteq> set db
    \<and> (\<forall>i. Suc i < length r \<longrightarrow> parent_id (r ! i) = Some (pv_id (r ! Suc i)))
    \<and> (r \<noteq> [] \<longrightarrow>
         (case start_from of
            Some s \<Rightarrow> find (\<lambda>v. pv_id v = s) db = Some (hd r)
          | None \<Rightarrow> hd r \<in> set db \<and> (\<forall>v\<in>set db. timestamp v \<le> timestamp (hd r))))
    \<and> (0 < limit \<longrightarrow>
         (case start_from of
            Some s \<Rightarrow> (\<exists>v\<in>set db. pv_id v = s) \<longrightarrow> r \<noteq> []
          | None \<Rightarrow> db \<noteq> [] \<longrightarrow> r \<noteq> []))
    \<and> (r \<noteq> [] \<longrightarrow>
         (case parent_id (last r) of
            None \<Rightarrow> True
          | Some p \<Rightarrow> int (length r) = limit \<or> find (\<lambda>v. pv_id v = p) db = None))"
proof -
  define cur where
    "cur = (case start_from of Some s \<Rightarrow> find (\<lambda>v. pv_id v = s) db | None \<Rightarrow> get_current_head db)"
  define r where "r = history_loop db limit 0 cur []"
  have r: "get_version_history db limit start_from = r"
    by (simp add: get_version_history_def r_def cur_def)
  have cur_db: "cur \<in> Some ` set db \<or> cur = None"
  proof (cases cur)
    case None
    then show ?thesis by simp
  next
    case (Some c)
    then have "c \<in> set db"
      unfolding cur_def get_current_head_def
      by (auto split: option.splits dest: find_in_set first_desc_max)
    with Some show ?thesis by simp
  qed
  have p1: "int (length r) \<le> max 0 limit"
    using history_loop_length [of db limit 0 cur] by (simp add: r_def)
  have p2: "set r \<subseteq> set db"
    unfolding r_def by (rule history_loop_subset [OF cur_db])
  have p3: "\<forall>i. Suc i < length r \<longrightarrow> parent_id (r ! i) = Some (pv_id (r ! Suc i))"
    unfolding r_def by (blast intro: history_loop_chain)
  have p4: "r \<noteq> [] \<longrightarrow>
         (case start_from of
            Some s \<Rightarrow> find (\<lambda>v. pv_id v = s) db = Some (hd r)
          | None \<Rightarrow> hd r \<in> set db \<and> (\<forall>v\<in>set db. timestamp v \<le> timestamp (hd r)))"
  proof
    assume "r \<noteq> []"
    then have c: "cur = Some (hd r)" unfolding r_def by (rule history_loop_hd)
    show "case start_from of
            Some s \<Rightarrow> find (\<lambda>v. pv_id v = s) db = Some (hd r)
          | None \<Rightarrow> hd r \<in> set db \<and> (\<forall>v\<in>set db. timestamp v \<le> timestamp (hd r))"
    proof (cases start_from)
      case None
      with c have "first_desc timestamp db = Some (hd r)"
        by (simp add: cur_def get_current_head_def)
      from first_desc_max [OF this] None show ?thesis by simp
    next
      case (Some s)
      with c show ?thesis by (simp add: cur_def)
    qed
  qed
  have p5: "0 < limit \<longrightarrow>
         (case start_from of
            Some s \<Rightarrow> (\<exists>v\<in>set db. pv_id v = s) \<longrightarrow> r \<noteq> []
          | None \<Rightarrow> db \<noteq> [] \<longrightarrow> r \<noteq> [])"
  proof
    assume l: "0 < limit"
    show "case start_from of
            Some s \<Rightarrow> (\<exists>v\<in>set db. pv_id v = s) \<longrightarrow> r \<noteq> []
          | None \<Rightarrow> db \<noteq> [] \<longrightarrow> r \<noteq> []"
    proof (cases start_from)
      case None
      show ?thesis
      proof (cases "first_desc timestamp db")
        case None
        then have "db = []" by (simp add: first_desc_None)
        with \<open>start_from = None\<close> show ?thesis by simp
      next
        case (Some c)
        then have "cur = Some c" using None by (simp add: cur_def get_current_head_def)
        with history_loop_nonempty [OF l, of db c] None show ?thesis by (simp add: r_def)
      qed
    next
      case (Some s)
      show ?thesis
      proof (cases "find (\<lambda>v. pv_id v = s) db")
        case None
        with Some show ?thesis by (auto simp: find_None_iff)
      next
        case (Some c)
        then have "cur = Some c" using \<open>start_from = Some s\<close> by (simp add: cur_def)
        with history_loop_nonempty [OF l, of db c] \<open>start_from = Some s\<close> show ?thesis
          by (simp add: r_def)
      qed
    qed
  qed
  have p6: "r \<noteq> [] \<longrightarrow>
         (case parent_id (last r) of
            None \<Rightarrow> True
          | Some p \<Rightarrow> int (length r) = limit \<or> find (\<lambda>v. pv_id v = p) db = None)"
    using history_loop_stop [of db limit 0 cur] unfolding r_def
    by (auto split: option.splits)
  from p1 p2 p3 p4 p5 p6 show ?thesis
    unfolding r Let_def by blast
qed

theorem get_version_history_walk_witness:
  "get_version_history
     [version_row 1 None 10 ''a'', version_row 2 (Some 1) 20 ''b'', version_row 3 (Some 2) 30 ''c'']
     2 None
   = [version_row 3 (Some 2) 30 ''c'', version_row 2 (Some 1) 20 ''b'']
   \<and> parent_id (version_row 3 (Some 2) 30 ''c'') = Some (pv_id (version_row 2 (Some 1) 20 ''b''))
   \<and> timestamp (version_row 1 None 10 ''a'') \<le> timestamp (version_row 3 (Some 2) 30 ''c'')
   \<and> timestamp (version_row 2 (Some 1) 20 ''b'') \<le> timestamp (version_row 3 (Some 2) 30 ''c'')"
proof -
  let ?db = "[version_row 1 None 10 ''a'', version_row 2 (Some 1) 20 ''b'',
              version_row 3 (Some 2) 30 ''c'']"
  have e: "get_version_history ?db 2 None
         = [version_row 3 (Some 2) 30 ''c'', version_row 2 (Some 1) 20 ''b'']"
    by (simp add: get_version_history_def get_current_head_def history_loop.simps version_row_def)
  from get_version_history_walk [of ?db 2 None] show ?thesis
    unfolding Let_def e by (simp add: version_row_def)
qed

section \<open>Validation and trimming of the content\<close>

text \<open>
  \<open>create_version\<close> does not look at the content: on an empty table it stores the row
  whatever the content is.
\<close>

lemma create_version_empty_table:
  "create_version jd sha new_id now c md tg au msg [] None =
     ([\<lparr>pv_id = new_id, content = c, hash = compute_hash jd sha c md, parent_id = None,
        author = au, timestamp = now, tags = tg,
        prompt_metadata = AList.update ''commit_message'' (PyStr msg) md, created_at = now\<rparr>],
      Inr \<lparr>pv_id = new_id, content = c, hash = compute_hash jd sha c md, parent_id = None,
        author = au, timestamp = now, tags = tg,
        prompt_metadata = AList.update ''commit_message'' (PyStr msg) md, created_at = now\<rparr>)"
  by (simp add: create_version_def Let_def)

text \<open>
  Claim C6, as stated, at a concrete input: \<open>create_version\<close> with the empty string as
  content raises nothing and stores a row with empty content.
\<close>

theorem create_version_empty_content_counterexample:
  "create_version (concat \<circ> map fst) rev (UUID 1) 10 '''' [] (PyList []) ''alice'' ''first'' [] None
   = ([\<lparr>pv_id = UUID 1, content = '''', hash = ''noisreverutarepmetledomtnetnoc'',
        parent_id = None, author = ''alice'', timestamp = 10, tags = PyList [],
        prompt_metadata = [(''commit_message'', PyStr ''first'')], created_at = 10\<rparr>],
      Inr \<lparr>pv_id = UUID 1, content = '''', hash = ''noisreverutarepmetledomtnetnoc'',
        parent_id = None, author = ''alice'', timestamp = 10, tags = PyList [],
        prompt_metadata = [(''commit_message'', PyStr ''first'')], created_at = 10\<rparr>)"
  by (simp add: create_version_empty_table compute_hash_def dict_get_def)

lemma parse_prompt_file_falsy:
  "\<not> truthy (dict_get d ''content'' (PyStr '''')) \<Longrightarrow>
   \<exists>m. parse_prompt_file stem (PyDict d) = Inl (ValueError m)"
  by (simp add: parse_prompt_file_def)

text \<open>
  Claim C6, amended. The empty content is rejected by \<open>parse_prompt_file\<close>: a staged file
  whose \<open>content\<close> entry is missing or the empty string makes the commit fail with
  \<open>ValueError\<close> before \<open>create_version\<close> is called, and the table is unchanged.
\<close>

theorem commit_rejects_empty_content:
  assumes "map_of d ''content'' = None \<or> map_of d ''content'' = Some (PyStr '''')"
  shows "\<exists>m. commit_staged_file json_dumps sha256_hex new_id now stem (PyDict d) author0 message db
              = (db, Inl (ValueError m))"
proof -
  from assms have "\<not> truthy (dict_get d ''content'' (PyStr ''''))"
    by (auto simp: dict_get_def)
  from parse_prompt_file_falsy [OF this, of stem] show ?thesis
    by (auto simp: commit_staged_file_def)
qed

theorem commit_rejects_empty_content_witness:
  "commit_staged_file (\<lambda>d. concat (map fst d)) rev (UUID 7) 5 ''greet''
     (PyDict [(''name'', PyStr ''greet''), (''content'', PyStr '''')]) ''alice'' ''msg''
     [version_row 1 None 10 ''a'']
   = ([version_row 1 None 10 ''a''], Inl (ValueError ''No content field''))"
  using commit_rejects_empty_content
    [of "[(''name'', PyStr ''greet''), (''content'', PyStr '''')]" "\<lambda>d. concat (map fst d)" rev
        "UUID 7" 5 "''greet''" "''alice''" "''msg''" "[version_row 1 None 10 ''a'']"]
  by (simp add: commit_staged_file_def parse_prompt_file_def dict_get_def)

lemma last_dropWhile_nonempty: "dropWhile P xs \<noteq> [] \<Longrightarrow> last (dropWhile P xs) = last xs"
  by (induction xs) (auto split: if_splits)

lemma strip_trimmed:
  "strip s = [] \<or> (\<not> py_isspace (hd (strip s)) \<and> \<not> py_isspace (last (strip s)))"
proof (cases "strip s = []")
  case True
  then show ?thesis by simp
next
  case False
  let ?t = "dropWhile py_isspace s"
  let ?u = "dropWhile py_isspace (rev ?t)"
  have s: "strip s = rev ?u" by (simp add: strip_def)
  with False have u: "?u \<noteq> []" by simp
  have t: "?t \<noteq> []"
  proof (cases ?t)
    case Nil
    then have "?u = []" by (simp only: rev.simps dropWhile.simps)
    with u show ?thesis by contradiction
  next
    case (Cons a as)
    then show ?thesis by (simp only: list.distinct not_False_eq_True)
  qed
  have "last (strip s) = hd ?u" using s by (simp add: last_rev)
  then have a: "\<not> py_isspace (last (strip s))" using hd_dropWhile [OF u] by simp
  have "hd (strip s) = last ?u" using s by (simp add: hd_rev)
  also have "\<dots> = last (rev ?t)" by (rule last_dropWhile_nonempty [OF u])
  also have "\<dots> = hd ?t" by (simp add: last_rev)
  finally have b: "\<not> py_isspace (hd (strip s))" using hd_dropWhile [OF t] by simp
  from a b show ?thesis by simp
qed

lemma parse_prompt_file_Inr:
  assumes "parse_prompt_file stem data = Inr parsed"
  shows "\<exists>d s. data = PyDict d \<and> map_of d ''content'' = Some (PyStr s) \<and> s \<noteq> [] \<and>
               p_content parsed = strip s"
proof -
  from assms obtain d where d: "data = PyDict d"
    by (cases data) (auto simp: parse_prompt_file_def split: if_splits)
  with assms obtain s where s: "dict_get d ''content'' (PyStr '''') = PyStr s"
    by (cases "dict_get d ''content'' (PyStr '''')")
       (auto simp: parse_prompt_file_def Let_def split: if_splits)
  with assms d have ne: "s \<noteq> []" and p: "p_content parsed = strip s"
    by (auto simp: parse_prompt_file_def Let_def split: if_splits)
  from s ne have "map_of d ''content'' = Some (PyStr s)"
    by (auto simp: dict_get_def split: option.splits)
  with d ne p show ?thesis by blast
qed

text \<open>
  Claim C7, as stated, at a concrete input: \<open>create_version\<close> stores the content it is
  given, white space included.
\<close>

theorem create_version_keeps_whitespace_counterexample:
  "snd (create_version (concat \<circ> map fst) rev (UUID 1) 10 '' hi '' [] (PyList []) ''alice''
          ''first'' [] None)
   = Inr \<lparr>pv_id = UUID 1, content = '' hi '', hash = ''noisreverutarepmetledomtnetnoc'',
        parent_id = None, author = ''alice'', timestamp = 10, tags = PyList [],
        prompt_metadata = [(''commit_message'', PyStr ''first'')], created_at = 10\<rparr>
   \<and> strip '' hi '' = ''hi''"
  by (simp add: create_version_empty_table compute_hash_def dict_get_def strip_def py_isspace_def)

text \<open>
  Claim C7, amended. A row created by a commit of a staged file holds the \<open>content\<close>
  entry of the file with leading and trailing white space removed (\<open>parse_prompt_file\<close>
  strips it), so its content neither starts nor ends with white space.
\<close>

theorem commit_stores_trimmed_content:
  assumes run: "commit_staged_file json_dumps sha256_hex new_id now stem data author0 message db
                  = (db', Inr v)"
    and new: "db' \<noteq> db"
  shows "\<exists>d s. data = PyDict d \<and> map_of d ''content'' = Some (PyStr s) \<and>
               db' = db @ [v] \<and> content v = strip s \<and>
               (content v = [] \<or>
                (\<not> py_isspace (hd (content v)) \<and> \<not> py_isspace (last (content v))))"
proof -
  from run obtain parsed where p: "parse_prompt_file stem data = Inr parsed"
    and c: "create_version json_dumps sha256_hex new_id now (p_content parsed) (p_metadata parsed)
              (p_tags parsed) author0 message db (map_option pv_id (get_current_head db))
            = (db', Inr v)"
    by (auto simp: commit_staged_file_def Let_def split: sum.splits)
  from create_version_cases [OF c] new
  have app: "db' = db @ [v]" and cv: "content v = p_content parsed" by auto
  from parse_prompt_file_Inr [OF p] obtain d s where
    d: "data = PyDict d" "map_of d ''content'' = Some (PyStr s)" "p_content parsed = strip s"
    by blast
  from strip_trimmed [of s] cv d(3)
  have "content v = [] \<or> (\<not> py_isspace (hd (content v)) \<and> \<not> py_isspace (last (content v)))"
    by simp
  with d app cv show ?thesis by auto
qed

theorem commit_stores_trimmed_content_witness:
  "commit_staged_file (\<lambda>d. concat (map fst d)) rev (UUID 7) 5 ''greet''
     (PyDict [(''content'', PyStr ''  hi there ''), (''model'', PyStr ''m'')]) ''alice'' ''msg'' []
   = ([\<lparr>pv_id = UUID 7, content = ''hi there'', hash = ''noisreverutarepmetledomtnetnoc'',
        parent_id = None, author = ''alice'', timestamp = 5, tags = PyList [],
        prompt_metadata =
          [(''name'', PyStr ''greet''), (''version'', PyStr ''1.0.0''), (''model'', PyStr ''m''),
           (''temperature'', PyFloat (7 / 10)), (''max_tokens'', PyNone), (''top_p'', PyNone),
           (''commit_message'', PyStr ''msg'')],
        created_at = 5\<rparr>],
      Inr \<lparr>pv_id = UUID 7, content = ''hi there'', hash = ''noisreverutarepmetledomtnetnoc'',
        parent_id = None, author = ''alice'', timestamp = 5, tags = PyList [],
        prompt_metadata =
          [(''name'', PyStr ''greet''), (''version'', PyStr ''1.0.0''), (''model'', PyStr ''m''),
           (''temperature'', PyFloat (7 / 10)), (''max_tokens'', PyNone), (''top_p'', PyNone),
           (''commit_message'', PyStr ''msg'')],
        created_at = 5\<rparr>)
   \<and> strip ''  hi there '' = ''hi there''
   \<and> \<not> py_isspace (hd ''hi there'') \<and> \<not> py_isspace (last ''hi there'')"
  (is "?run \<and> ?s \<and> ?h")
proof -
  have run: ?run
    by (simp add: commit_staged_file_def parse_prompt_file_def dict_get_def get_current_head_def
        create_version_empty_table compute_hash_def strip_def py_isspace_def Let_def)
  have s: ?s by (simp add: strip_def py_isspace_def)
  from commit_stores_trimmed_content [OF run] have ?h by (simp add: s)
  with run s show ?thesis by blast
qed

text \<open>
  The emptiness test of \<open>parse_prompt_file\<close> comes before the stripping, so a content of
  white space only passes it and is stored as the empty string.
\<close>

lemma commit_whitespace_only_content:
  "map content
     (fst (commit_staged_file (concat \<circ> map fst) rev (UUID 7) 5 ''greet''
             (PyDict [(''content'', PyStr ''  '')]) ''alice'' ''msg'' []))
   = ['''']"
  by (simp add: commit_staged_file_def parse_prompt_file_def dict_get_def get_current_head_def
      create_version_empty_table strip_def py_isspace_def Let_def)

section \<open>The cache is advisory\<close>

lemma next_fault_entries: "entries (snd (next_fault r)) = entries r"
  by (simp add: next_fault_def split: list.splits)

lemma redis_get_entries: "entries (fst (redis_get r k)) = entries r"
  using next_fault_entries [of r]
  by (cases "next_fault r") (simp add: redis_get_def)

lemma redis_setex_Inl: "snd (redis_setex r k ttl v) = Inl e \<Longrightarrow> entries (fst (redis_setex r k ttl v)) = entries r"
  using next_fault_entries [of r]
  by (cases "next_fault r") (auto simp: redis_setex_def split: if_splits)

lemma redis_keys_entries: "entries (fst (redis_keys g r p)) = entries r"
  using next_fault_entries [of r]
  by (cases "next_fault r") (simp add: redis_keys_def)

lemma redis_delete_Inl: "snd (redis_delete r ks) = Inl e \<Longrightarrow> entries (fst (redis_delete r ks)) = entries r"
  using next_fault_entries [of r]
  by (cases "next_fault r") (auto simp: redis_delete_def split: if_splits)

lemma get_from_cache_total:
  "\<exists>v. snd (get_from_cache json_loads engine r env name) = Inr v"
  by (simp add: get_from_cache_def split: prod.splits sum.splits)

lemma get_from_cache_miss:
  "\<not> redis_available engine \<or> (\<exists>e. snd (get_from_cache_try json_loads r env name) = Inl e) \<Longrightarrow>
   snd (get_from_cache json_loads engine r env name) = Inr None"
  by (auto simp: get_from_cache_def split: prod.splits sum.splits)

lemma get_from_cache_entries:
  "entries (fst (get_from_cache json_loads engine r env name)) = entries r"
  using redis_get_entries [of r "get_cache_key env name"]
  by (auto simp: get_from_cache_def get_from_cache_try_def Let_def split: prod.splits sum.splits option.splits)

lemma set_cache_total:
  "snd (set_cache json_dumps engine r env prompt_data name ttl) = Inr ()"
  by (simp add: set_cache_def split: prod.splits sum.splits)

lemma set_cache_noop:
  assumes "\<not> redis_available engine \<or> (\<exists>e. snd (set_cache_try json_dumps r env prompt_data name ttl) = Inl e)"
  shows "entries (fst (set_cache json_dumps engine r env prompt_data name ttl)) = entries r"
proof (cases "redis_available engine")
  case False
  then show ?thesis by (simp add: set_cache_def)
next
  case True
  with assms obtain e where e: "snd (set_cache_try json_dumps r env prompt_data name ttl) = Inl e"
    by blast
  have "entries (fst (set_cache_try json_dumps r env prompt_data name ttl)) = entries r"
  proof (cases "json_dumps prompt_data")
    case (Inl a)
    then show ?thesis by (simp add: set_cache_try_def)
  next
    case (Inr v)
    with e redis_setex_Inl [of r "get_cache_key env name" ttl v e] show ?thesis
      by (simp add: set_cache_try_def)
  qed
  with True show ?thesis
    by (auto simp: set_cache_def split: prod.splits sum.splits)
qed

lemma invalidate_cache_total:
  "snd (invalidate_cache glob_match engine r env) = Inr ()"
  by (simp add: invalidate_cache_def split: prod.splits sum.splits)

lemma invalidate_cache_try_Inl:
  assumes "snd (invalidate_cache_try glob_match r env) = Inl e"
  shows "entries (fst (invalidate_cache_try glob_match r env)) = entries r"
proof -
  let ?p = "''promptops:prompt:'' @ env @ '':*''"
  obtain r1 res where k: "redis_keys glob_match r ?p = (r1, res)" by (cases "redis_keys glob_match r ?p")
  have r1: "entries r1 = entries r" using redis_keys_entries [of glob_match r ?p] k by simp
  show ?thesis
  proof (cases res)
    case (Inl a)
    with k r1 show ?thesis by (simp add: invalidate_cache_try_def)
  next
    case (Inr ks)
    show ?thesis
    proof (cases "ks = []")
      case True
      with k Inr r1 show ?thesis by (simp add: invalidate_cache_try_def)
    next
      case False
      obtain r2 res2 where d: "redis_delete r1 ks = (r2, res2)" by (cases "redis_delete r1 ks")
      with assms k Inr False obtain e2 where "res2 = Inl e2"
        by (cases res2) (auto simp: invalidate_cache_try_def)
      with redis_delete_Inl [of r1 ks e2] d r1 have "entries r2 = entries r" by simp
      with k Inr False d show ?thesis by (simp add: invalidate_cache_try_def split: sum.splits)
    qed
  qed
qed

lemma invalidate_cache_noop:
  assumes "\<not> redis_available engine \<or> (\<exists>e. snd (invalidate_cache_try glob_match r env) = Inl e)"
  shows "entries (fst (invalidate_cache glob_match engine r env)) = entries r"
proof (cases "redis_available engine")
  case False
  then show ?thesis by (simp add: invalidate_cache_def)
next
  case True
  with assms obtain e where "snd (invalidate_cache_try glob_match r env) = Inl e" by blast
  from invalidate_cache_try_Inl [OF this] True show ?thesis
    by (auto simp: invalidate_cache_def split: prod.splits sum.splits)
qed

lemma DeploymentEngine_total: "\<exists>e. snd (DeploymentEngine r) = Inr e"
  by (simp add: DeploymentEngine_def split: prod.splits sum.splits)

section \<open>Deployments: one active row per environment\<close>

lemma set_active_ids: "map dep_id (set_active i b ds) = map dep_id ds"
  by (simp add: set_active_def comp_def if_distrib [of dep_id] cong: if_cong)

lemma fold_deactivate:
  "fold (\<lambda>dep ds. set_active (dep_id dep) False ds) cur ds =
   map (\<lambda>d. if dep_id d \<in> dep_id ` set cur then d\<lparr>is_active := False\<rparr> else d) ds"
proof (induction cur arbitrary: ds)
  case Nil
  then show ?case by simp
next
  case (Cons c cs)
  have "fold (\<lambda>dep ds. set_active (dep_id dep) False ds) (c # cs) ds
      = fold (\<lambda>dep ds. set_active (dep_id dep) False ds) cs (set_active (dep_id c) False ds)"
    by simp
  also have "\<dots> = map (\<lambda>d. if dep_id d \<in> dep_id ` set cs then d\<lparr>is_active := False\<rparr> else d)
                     (set_active (dep_id c) False ds)"
    by (rule Cons.IH)
  also have "\<dots> = map (\<lambda>d. if dep_id d \<in> dep_id ` set (c # cs) then d\<lparr>is_active := False\<rparr> else d) ds"
    unfolding set_active_def map_map by (rule map_cong [OF refl]) auto
  finally show ?case .
qed

lemma distinct_ids_eq:
  "distinct (map dep_id ds) \<Longrightarrow> x \<in> set ds \<Longrightarrow> y \<in> set ds \<Longrightarrow> dep_id x = dep_id y \<Longrightarrow> x = y"
  by (meson distinct_map inj_on_def)

lemma deactivate_env:
  assumes "distinct (map dep_id ds)"
  shows "fold (\<lambda>dep ds. set_active (dep_id dep) False ds)
           (filter (\<lambda>d. environment d = env \<and> is_active d) ds) ds
       = map (\<lambda>d. if environment d = env then d\<lparr>is_active := False\<rparr> else d) ds"
proof -
  let ?cur = "filter (\<lambda>d. environment d = env \<and> is_active d) ds"
  have "map (\<lambda>d. if dep_id d \<in> dep_id ` set ?cur then d\<lparr>is_active := False\<rparr> else d) ds
      = map (\<lambda>d. if environment d = env then d\<lparr>is_active := False\<rparr> else d) ds"
  proof (rule map_cong [OF refl])
    fix d assume d: "d \<in> set ds"
    show "(if dep_id d \<in> dep_id ` set ?cur then d\<lparr>is_active := False\<rparr> else d)
        = (if environment d = env then d\<lparr>is_active := False\<rparr> else d)"
    proof (cases "dep_id d \<in> dep_id ` set ?cur")
      case True
      then obtain c where c: "c \<in> set ?cur" "dep_id d = dep_id c" by auto
      then have "c \<in> set ds" by simp
      from distinct_ids_eq [OF assms d this c(2)] c(1) have "environment d = env" by simp
      with True show ?thesis by simp
    next
      case False
      then have "\<not> (environment d = env \<and> is_active d)" using d by auto
      then have "environment d = env \<Longrightarrow> d\<lparr>is_active := False\<rparr> = d" by simp
      with False show ?thesis by auto
    qed
  qed
  then show ?thesis by (simp add: fold_deactivate)
qed

lemma active_rows_deactivate:
  "active_rows e (map (\<lambda>d. if environment d = env then d\<lparr>is_active := False\<rparr> else d) ds)
   = (if e = env then [] else active_rows e ds)"
  by (induction ds) (auto simp: active_rows_def)

lemma active_rows_append:
  "active_rows e (xs @ ys) = active_rows e xs @ active_rows e ys"
  by (simp add: active_rows_def)

lemma filter_id_single:
  "distinct (map dep_id ds) \<Longrightarrow> x \<in> set ds \<Longrightarrow> filter (\<lambda>d. dep_id d = dep_id x) ds = [x]"
proof (induction ds)
  case Nil
  then show ?case by simp
next
  case (Cons a ds)
  show ?case
  proof (cases "x = a")
    case True
    with Cons.prems have "\<forall>d\<in>set ds. dep_id d \<noteq> dep_id a" by (auto simp: image_iff)
    then have "filter (\<lambda>d. dep_id d = dep_id a) ds = []" by (simp add: filter_empty_conv)
    with True show ?thesis by simp
  next
    case False
    with Cons.prems have x: "x \<in> set ds" and "dep_id a \<noteq> dep_id x"
      by (auto simp: image_iff)
    with Cons show ?thesis by simp
  qed
qed

lemma swap_rows:
  assumes "p \<noteq> c"
  shows "set_active p True (set_active c False ds)
       = map (\<lambda>d. if dep_id d = p then d\<lparr>is_active := True\<rparr>
                  else if dep_id d = c then d\<lparr>is_active := False\<rparr> else d) ds"
  unfolding set_active_def map_map using assms by (intro map_cong [OF refl]) auto

lemma first_desc_in: "first_desc key xs = Some x \<Longrightarrow> x \<in> set xs"
  by (simp add: first_desc_max)

lemma rollback_rows:
  assumes dist: "distinct (map dep_id ds)"
    and one: "length (active_rows env ds) \<le> 1"
    and cur: "first_desc deployed_at (filter (\<lambda>d. environment d = env \<and> is_active d) ds) = Some cur"
    and prev: "first_desc deployed_at
                 (filter (\<lambda>d. environment d = env \<and> dep_id d \<noteq> dep_id cur) ds) = Some prev"
  shows "active_rows env ds = [cur]"
    and "prev \<in> set ds" and "cur \<in> set ds"
    and "environment prev = env" and "environment cur = env"
    and "\<not> is_active prev" and "is_active cur" and "dep_id prev \<noteq> dep_id cur"
proof -
  from first_desc_in [OF cur] have c: "cur \<in> set (active_rows env ds)"
    by (simp add: active_rows_def)
  with one show a: "active_rows env ds = [cur]"
    by (cases "active_rows env ds") auto
  from c show "cur \<in> set ds" "environment cur = env" "is_active cur"
    by (simp_all add: active_rows_def)
  from first_desc_in [OF prev]
  show p: "prev \<in> set ds" "environment prev = env" "dep_id prev \<noteq> dep_id cur" by simp_all
  show "\<not> is_active prev"
  proof
    assume "is_active prev"
    with p have "prev \<in> set (active_rows env ds)" by (simp add: active_rows_def)
    with a p(3) show False by simp
  qed
qed

lemma rollback_active_same_env:
  assumes dist: "distinct (map dep_id ds)"
    and a: "active_rows env ds = [cur]"
    and p: "prev \<in> set ds" "environment prev = env" "dep_id prev \<noteq> dep_id cur"
  shows "active_rows env (set_active (dep_id prev) True (set_active (dep_id cur) False ds))
       = [prev\<lparr>is_active := True\<rparr>]"
proof -
  let ?g = "\<lambda>d. if dep_id d = dep_id prev then d\<lparr>is_active := True\<rparr>
                 else if dep_id d = dep_id cur then d\<lparr>is_active := False\<rparr> else d"
  let ?P = "\<lambda>d. environment d = env \<and> is_active d"
  have "filter (?P \<circ> ?g) ds = filter (\<lambda>d. dep_id d = dep_id prev) ds"
  proof (rule filter_cong [OF refl])
    fix d assume d: "d \<in> set ds"
    show "(?P \<circ> ?g) d = (dep_id d = dep_id prev)"
    proof (cases "dep_id d = dep_id prev")
      case True
      with distinct_ids_eq [OF dist d p(1)] have "d = prev" by simp
      with p(2) show ?thesis by simp
    next
      case False
      have "\<not> ?P d" if "dep_id d \<noteq> dep_id cur"
      proof
        assume "?P d"
        with d have "d \<in> set (active_rows env ds)" by (simp add: active_rows_def)
        with a that show False by simp
      qed
      with False show ?thesis by auto
    qed
  qed
  also have "\<dots> = [prev]" by (rule filter_id_single [OF dist p(1)])
  finally have "filter ?P (map ?g ds) = [?g prev]" by (simp add: filter_map)
  then show ?thesis
    by (simp add: swap_rows [OF p(3)] active_rows_def)
qed

lemma rollback_active_other_env:
  assumes dist: "distinct (map dep_id ds)"
    and c: "cur \<in> set ds" "environment cur = env"
    and p: "prev \<in> set ds" "environment prev = env" "dep_id prev \<noteq> dep_id cur"
    and e: "e \<noteq> env"
  shows "active_rows e (set_active (dep_id prev) True (set_active (dep_id cur) False ds))
       = active_rows e ds"
proof -
  let ?g = "\<lambda>d. if dep_id d = dep_id prev then d\<lparr>is_active := True\<rparr>
                 else if dep_id d = dep_id cur then d\<lparr>is_active := False\<rparr> else d"
  let ?P = "\<lambda>d. environment d = e \<and> is_active d"
  have other: "?g d = d" if "d \<in> set ds" "environment d = e" for d
  proof -
    from distinct_ids_eq [OF dist that(1) p(1)] that(2) p(2) e
    have "dep_id d \<noteq> dep_id prev" by auto
    moreover from distinct_ids_eq [OF dist that(1) c(1)] that(2) c(2) e
    have "dep_id d \<noteq> dep_id cur" by auto
    ultimately show ?thesis by simp
  qed
  have "filter (?P \<circ> ?g) ds = filter ?P ds"
  proof (rule filter_cong [OF refl])
    fix d assume d: "d \<in> set ds"
    show "(?P \<circ> ?g) d = ?P d"
    proof (cases "environment d = e")
      case True
      with other [OF d] show ?thesis by (simp only: comp_def)
    next
      case False
      then show ?thesis by simp
    qed
  qed
  moreover have "map ?g (filter ?P ds) = filter ?P ds"
    by (rule map_idI) (simp add: other)
  ultimately have "filter ?P (map ?g ds) = filter ?P ds" by (simp add: filter_map)
  then show ?thesis by (simp add: swap_rows [OF p(3)] active_rows_def)
qed

lemma deploy_version_cases:
  assumes "deploy_version glob_match new_id now version_hash env actor db r = (db1, r1, res)"
  shows "(db1 = db \<and> r1 = r \<and> (\<exists>e. res = Inl e))
       \<or> (\<exists>version resp.
            get_version_by_hash (versions db) version_hash = Some version \<and>
            new_id \<notin> set (map dep_id (deployments db)) \<and>
            res = Inr resp \<and>
            db1 = db\<lparr>deployments :=
                     fold (\<lambda>dep ds. set_active (dep_id dep) False ds)
                       (filter (\<lambda>d. environment d = env \<and> is_active d) (deployments db))
                       (deployments db)
                     @ [\<lparr>dep_id = new_id, version_id = pv_id version, environment = env,
                         deployed_at = now, deployed_by = actor, rollback_version_id = None,
                         is_active = True\<rparr>]\<rparr>)"
proof (cases "get_version_by_hash (versions db) version_hash")
  case None
  with assms show ?thesis by (auto simp: deploy_version_def)
next
  case (Some version)
  show ?thesis
  proof (cases "new_id \<in> set (map dep_id (deployments db))")
    case True
    with assms Some show ?thesis by (auto simp: deploy_version_def Let_def)
  next
    case False
    obtain ra eng where e: "DeploymentEngine r = (ra, eng)" by (cases "DeploymentEngine r")
    with DeploymentEngine_total [of r] obtain engine where eng: "eng = Inr engine" by auto
    obtain rb inv where i: "invalidate_cache glob_match engine ra env = (rb, inv)"
      by (cases "invalidate_cache glob_match engine ra env")
    with invalidate_cache_total [of glob_match engine ra env] have inv: "inv = Inr ()" by simp
    from assms Some False e eng i inv show ?thesis
      by (auto simp: deploy_version_def Let_def)
  qed
qed

lemma rollback_deployment_cases:
  assumes "rollback_deployment glob_match env db r = (db1, r1, res)"
  shows "(db1 = db \<and> r1 = r \<and>
          first_desc deployed_at
            (filter (\<lambda>d. environment d = env \<and> is_active d) (deployments db)) = None \<and>
          res = Inl (HTTPException 404 (''No active deployment in '' @ env)))
       \<or> (\<exists>cur. db1 = db \<and> r1 = r \<and>
            first_desc deployed_at
              (filter (\<lambda>d. environment d = env \<and> is_active d) (deployments db)) = Some cur \<and>
            first_desc deployed_at
              (filter (\<lambda>d. environment d = env \<and> dep_id d \<noteq> dep_id cur) (deployments db)) = None \<and>
            res = Inl (HTTPException 400 ''No previous deployment to rollback to''))
       \<or> (\<exists>cur prev.
            first_desc deployed_at
              (filter (\<lambda>d. environment d = env \<and> is_active d) (deployments db)) = Some cur \<and>
            first_desc deployed_at
              (filter (\<lambda>d. environment d = env \<and> dep_id d \<noteq> dep_id cur) (deployments db))
              = Some prev \<and>
            db1 = db\<lparr>deployments :=
                     set_active (dep_id prev) True
                       (set_active (dep_id cur) False (deployments db))\<rparr> \<and>
            (case find (\<lambda>v. pv_id v = version_id cur) (versions db) of
               None \<Rightarrow> res = Inl AttributeError
             | Some vc \<Rightarrow>
                 (case find (\<lambda>v. pv_id v = version_id prev) (versions db) of
                    None \<Rightarrow> res = Inl AttributeError
                  | Some vp \<Rightarrow> \<exists>resp. res = Inr resp)))"
proof (cases "first_desc deployed_at
                (filter (\<lambda>d. environment d = env \<and> is_active d) (deployments db))")
  case None
  with assms show ?thesis by (simp add: rollback_deployment_def)
next
  case (Some cur)
  note c = Some
  show ?thesis
  proof (cases "first_desc deployed_at
                  (filter (\<lambda>d. environment d = env \<and> dep_id d \<noteq> dep_id cur) (deployments db))")
    case None
    with assms c show ?thesis by (simp add: rollback_deployment_def)
  next
    case (Some prev)
    obtain ra eng where e: "DeploymentEngine r = (ra, eng)" by (cases "DeploymentEngine r")
    with DeploymentEngine_total [of r] obtain engine where eng: "eng = Inr engine" by auto
    obtain rb inv where i: "invalidate_cache glob_match engine ra env = (rb, inv)"
      by (cases "invalidate_cache glob_match engine ra env")
    with invalidate_cache_total [of glob_match engine ra env] have inv: "inv = Inr ()" by simp
    from assms c Some e eng i inv show ?thesis
      by (auto simp: rollback_deployment_def Let_def split: option.splits)
  qed
qed

lemma deploy_version_inv:
  assumes run: "deploy_version glob_match new_id now version_hash env actor db r = (db1, r1, res)"
    and dist: "distinct (map dep_id (deployments db))"
    and one: "\<forall>e. length (active_rows e (deployments db)) \<le> 1"
  shows "distinct (map dep_id (deployments db1)) \<and>
         (\<forall>e. length (active_rows e (deployments db1)) \<le> 1) \<and> versions db1 = versions db"
  using deploy_version_cases [OF run]
proof (elim disjE exE conjE)
  assume "db1 = db"
  with dist one show ?thesis by simp
next
  fix version resp
  assume fresh: "new_id \<notin> set (map dep_id (deployments db))"
    and db1: "db1 = db\<lparr>deployments :=
                     fold (\<lambda>dep ds. set_active (dep_id dep) False ds)
                       (filter (\<lambda>d. environment d = env \<and> is_active d) (deployments db))
                       (deployments db)
                     @ [\<lparr>dep_id = new_id, version_id = pv_id version, environment = env,
                         deployed_at = now, deployed_by = actor, rollback_version_id = None,
                         is_active = True\<rparr>]\<rparr>"
  let ?old = "map (\<lambda>d. if environment d = env then d\<lparr>is_active := False\<rparr> else d)
                (deployments db)"
  have ds: "deployments db1 = ?old
              @ [\<lparr>dep_id = new_id, version_id = pv_id version, environment = env,
                  deployed_at = now, deployed_by = actor, rollback_version_id = None,
                  is_active = True\<rparr>]"
    using db1 by (simp add: deactivate_env [OF dist])
  have ids: "map dep_id ?old = map dep_id (deployments db)"
    by (rule nth_equalityI) simp_all
  have "map dep_id (deployments db1) = map dep_id (deployments db) @ [new_id]"
    unfolding ds map_append ids by simp
  then have "distinct (map dep_id (deployments db1))"
    using fresh dist by simp
  moreover have "length (active_rows e (deployments db1)) \<le> 1" for e
    using one [rule_format, of e]
    by (simp add: ds active_rows_append active_rows_deactivate) (simp add: active_rows_def)
  moreover have "versions db1 = versions db" using db1 by simp
  ultimately show ?thesis by simp
qed

lemma rollback_deployment_inv:
  assumes run: "rollback_deployment glob_match env db r = (db1, r1, res)"
    and dist: "distinct (map dep_id (deployments db))"
    and one: "\<forall>e. length (active_rows e (deployments db)) \<le> 1"
  shows "distinct (map dep_id (deployments db1)) \<and>
         (\<forall>e. length (active_rows e (deployments db1)) \<le> 1) \<and> versions db1 = versions db"
  using rollback_deployment_cases [OF run]
proof (elim disjE exE conjE)
  assume "db1 = db"
  with dist one show ?thesis by simp
next
  fix cur
  assume "db1 = db"
  with dist one show ?thesis by simp
next
  fix cur prev
  assume c: "first_desc deployed_at
               (filter (\<lambda>d. environment d = env \<and> is_active d) (deployments db)) = Some cur"
    and p: "first_desc deployed_at
              (filter (\<lambda>d. environment d = env \<and> dep_id d \<noteq> dep_id cur) (deployments db))
            = Some prev"
    and db1: "db1 = db\<lparr>deployments :=
                     set_active (dep_id prev) True
                       (set_active (dep_id cur) False (deployments db))\<rparr>"
  note rr = rollback_rows [OF dist one [rule_format, of env] c p]
  have "distinct (map dep_id (deployments db1))"
    using db1 dist by (simp add: set_active_ids)
  moreover have "length (active_rows e (deployments db1)) \<le> 1" for e
  proof (cases "e = env")
    case True
    with rollback_active_same_env [OF dist rr(1) rr(2) rr(4) rr(8)] db1 show ?thesis by simp
  next
    case False
    with rollback_active_other_env [OF dist rr(3) rr(5) rr(2) rr(4) rr(8) False] db1
      one [rule_format, of e] show ?thesis by simp
  qed
  moreover have "versions db1 = versions db" using db1 by simp
  ultimately show ?thesis by simp
qed

lemma serve_inv:
  assumes "serve glob_match reqs (db0, r0) = (db, r)"
    and "distinct (map dep_id (deployments db0))"
    and "\<forall>e. length (active_rows e (deployments db0)) \<le> 1"
  shows "distinct (map dep_id (deployments db)) \<and>
         (\<forall>e. length (active_rows e (deployments db)) \<le> 1) \<and> versions db = versions db0"
  using assms
proof (induction reqs arbitrary: db0 r0)
  case Nil
  then show ?case by simp
next
  case (Cons q qs)
  obtain dba ra where h: "handle glob_match q (db0, r0) = (dba, ra)"
    by (cases "handle glob_match q (db0, r0)")
  have step: "distinct (map dep_id (deployments dba)) \<and>
              (\<forall>e. length (active_rows e (deployments dba)) \<le> 1) \<and> versions dba = versions db0"
  proof (cases q)
    case (Deploy version_hash env actor new_id now)
    obtain res where "deploy_version glob_match new_id now version_hash env actor db0 r0 = (dba, ra, res)"
      using h Deploy by (auto split: prod.splits)
    from deploy_version_inv [OF this Cons.prems(2,3)] show ?thesis .
  next
    case (Rollback env)
    obtain res where "rollback_deployment glob_match env db0 r0 = (dba, ra, res)"
      using h Rollback by (auto split: prod.splits)
    from rollback_deployment_inv [OF this Cons.prems(2,3)] show ?thesis .
  qed
  from Cons.prems(1) h have "serve glob_match qs (dba, ra) = (db, r)" by simp
  from Cons.IH [OF this] step show ?case by simp
qed

lemma deploy_version_effect:
  assumes run: "deploy_version glob_match new_id now version_hash env actor db r = (db1, r1, Inr resp)"
    and dist: "distinct (map dep_id (deployments db))"
  shows "\<exists>row. deployments db1 =
                 map (\<lambda>d. if environment d = env then d\<lparr>is_active := False\<rparr> else d)
                   (deployments db) @ [row] \<and>
               dep_id row = new_id \<and> environment row = env \<and> is_active row \<and>
               active_rows env (deployments db1) = [row]"
  using deploy_version_cases [OF run]
proof (elim disjE exE conjE)
  fix e assume "Inr resp = Inl e"
  then show ?thesis by simp
next
  fix version resp'
  assume db1: "db1 = db\<lparr>deployments :=
                     fold (\<lambda>dep ds. set_active (dep_id dep) False ds)
                       (filter (\<lambda>d. environment d = env \<and> is_active d) (deployments db))
                       (deployments db)
                     @ [\<lparr>dep_id = new_id, version_id = pv_id version, environment = env,
                         deployed_at = now, deployed_by = actor, rollback_version_id = None,
                         is_active = True\<rparr>]\<rparr>"
  let ?row = "\<lparr>dep_id = new_id, version_id = pv_id version, environment = env,
               deployed_at = now, deployed_by = actor, rollback_version_id = None,
               is_active = True\<rparr>"
  have ds: "deployments db1 =
              map (\<lambda>d. if environment d = env then d\<lparr>is_active := False\<rparr> else d)
                (deployments db) @ [?row]"
    using db1 by (simp add: deactivate_env [OF dist])
  have "active_rows env (deployments db1) = [?row]"
    by (simp add: ds active_rows_append active_rows_deactivate) (simp add: active_rows_def)
  with ds show ?thesis by simp
qed

lemma rollback_deployment_effect:
  assumes run: "rollback_deployment glob_match env db r = (db1, r1, Inr resp)"
    and dist: "distinct (map dep_id (deployments db))"
    and one: "length (active_rows env (deployments db)) \<le> 1"
  shows "\<exists>cur prev.
           active_rows env (deployments db) = [cur] \<and>
           prev \<in> set (deployments db) \<and> environment prev = env \<and> \<not> is_active prev \<and>
           prev \<noteq> cur \<and>
           deployments db1 =
             map (\<lambda>d. if d = prev then d\<lparr>is_active := True\<rparr>
                       else if d = cur then d\<lparr>is_active := False\<rparr> else d)
               (deployments db) \<and>
           active_rows env (deployments db1) = [prev\<lparr>is_active := True\<rparr>]"
  using rollback_deployment_cases [OF run]
proof (elim disjE exE conjE)
  assume "Inr resp = Inl (HTTPException 404 (''No active deployment in '' @ env))"
  then show ?thesis by simp
next
  fix cur assume "Inr resp = Inl (HTTPException 400 ''No previous deployment to rollback to'')"
  then show ?thesis by simp
next
  fix cur prev
  assume c: "first_desc deployed_at
               (filter (\<lambda>d. environment d = env \<and> is_active d) (deployments db)) = Some cur"
    and p: "first_desc deployed_at
              (filter (\<lambda>d. environment d = env \<and> dep_id d \<noteq> dep_id cur) (deployments db))
            = Some prev"
    and db1: "db1 = db\<lparr>deployments :=
                     set_active (dep_id prev) True
                       (set_active (dep_id cur) False (deployments db))\<rparr>"
  note rr = rollback_rows [OF dist one c p]
  have "deployments db1 =
          map (\<lambda>d. if dep_id d = dep_id prev then d\<lparr>is_active := True\<rparr>
                    else if dep_id d = dep_id cur then d\<lparr>is_active := False\<rparr> else d)
            (deployments db)"
    using db1 by (simp add: swap_rows [OF rr(8)])
  also have "\<dots> = map (\<lambda>d. if d = prev then d\<lparr>is_active := True\<rparr>
                           else if d = cur then d\<lparr>is_active := False\<rparr> else d)
                     (deployments db)"
  proof (rule map_cong [OF refl])
    fix d assume d: "d \<in> set (deployments db)"
    have "dep_id d = dep_id prev \<longleftrightarrow> d = prev"
      using distinct_ids_eq [OF dist d rr(2)] by auto
    moreover have "dep_id d = dep_id cur \<longleftrightarrow> d = cur"
      using distinct_ids_eq [OF dist d rr(3)] by auto
    ultimately show "(if dep_id d = dep_id prev then d\<lparr>is_active := True\<rparr>
                      else if dep_id d = dep_id cur then d\<lparr>is_active := False\<rparr> else d)
                   = (if d = prev then d\<lparr>is_active := True\<rparr>
                      else if d = cur then d\<lparr>is_active := False\<rparr> else d)"
      by simp
  qed
  finally have ds: "deployments db1 =
          map (\<lambda>d. if d = prev then d\<lparr>is_active := True\<rparr>
                    else if d = cur then d\<lparr>is_active := False\<rparr> else d)
            (deployments db)" .
  have "active_rows env (deployments db1) = [prev\<lparr>is_active := True\<rparr>]"
    using rollback_active_same_env [OF dist rr(1) rr(2) rr(4) rr(8)] db1 by simp
  moreover have "prev \<noteq> cur" using rr(8) by auto
  ultimately show ?thesis using rr(1,2,4,6) ds by blast
qed

text \<open>
  Claim C1. After any sequence of deploy and rollback requests, starting from an empty
  table of deployments, every environment has at most one active row. In such a state a
  successful deploy deactivates the rows of the environment and appends one new active
  row, which is then the only active one; a successful rollback turns exactly one row
  from inactive to active and the one active row to inactive, and leaves every other row
  as it is.
\<close>

theorem single_active_deployment:
  assumes "serve glob_match reqs (\<lparr>versions = vs, deployments = []\<rparr>, r0) = (db, r)"
  shows "length (active_rows env (deployments db)) \<le> 1
    \<and> (\<forall>new_id now version_hash actor db1 r1 resp.
          deploy_version glob_match new_id now version_hash env actor db r = (db1, r1, Inr resp) \<longrightarrow>
          (\<exists>row. deployments db1 =
                    map (\<lambda>d. if environment d = env then d\<lparr>is_active := False\<rparr> else d)
                      (deployments db) @ [row] \<and>
                  dep_id row = new_id \<and> environment row = env \<and> is_active row \<and>
                  active_rows env (deployments db1) = [row]))
    \<and> (\<forall>db1 r1 resp.
          rollback_deployment glob_match env db r = (db1, r1, Inr resp) \<longrightarrow>
          (\<exists>cur prev.
             active_rows env (deployments db) = [cur] \<and>
             prev \<in> set (deployments db) \<and> environment prev = env \<and> \<not> is_active prev \<and>
             prev \<noteq> cur \<and>
             deployments db1 =
               map (\<lambda>d. if d = prev then d\<lparr>is_active := True\<rparr>
                         else if d = cur then d\<lparr>is_active := False\<rparr> else d)
                 (deployments db) \<and>
             active_rows env (deployments db1) = [prev\<lparr>is_active := True\<rparr>]))"
proof -
  have "distinct (map dep_id (deployments \<lparr>versions = vs, deployments = []\<rparr>))"
    and "\<forall>e. length (active_rows e (deployments \<lparr>versions = vs, deployments = []\<rparr>)) \<le> 1"
    by (simp_all add: active_rows_def)
  from serve_inv [OF assms this]
  have dist: "distinct (map dep_id (deployments db))"
    and one: "\<And>e. length (active_rows e (deployments db)) \<le> 1"
    by simp_all
  show ?thesis
    using one [of env] deploy_version_effect [OF _ dist]
      rollback_deployment_effect [OF _ dist one [of env]]
    by (intro conjI allI impI) assumption+
qed

theorem single_active_deployment_witness:
  "serve (\<lambda>p k. take 17 p = take 17 k)
     [Deploy ''h1'' ''staging'' ''ci'' (UUID 11) 100,
      Deploy ''h2'' ''staging'' ''ci'' (UUID 12) 200,
      Rollback ''staging'']
     (\<lparr>versions = [version_row 1 None 10 ''h1'', version_row 2 (Some 1) 20 ''h2''],
       deployments = []\<rparr>,
      \<lparr>entries = [], faults = []\<rparr>)
   = (\<lparr>versions = [version_row 1 None 10 ''h1'', version_row 2 (Some 1) 20 ''h2''],
       deployments = [deployment_row 11 1 ''staging'' 100 True,
                      deployment_row 12 2 ''staging'' 200 False]\<rparr>,
      \<lparr>entries = [], faults = []\<rparr>)
   \<and> length (active_rows ''staging''
         [deployment_row 11 1 ''staging'' 100 True, deployment_row 12 2 ''staging'' 200 False]) \<le> 1
   \<and> fst (deploy_version (\<lambda>p k. take 17 p = take 17 k) (UUID 13) 300 ''h2'' ''staging'' ''ci''
        \<lparr>versions = [version_row 1 None 10 ''h1'', version_row 2 (Some 1) 20 ''h2''],
         deployments = [deployment_row 11 1 ''staging'' 100 True,
                        deployment_row 12 2 ''staging'' 200 False]\<rparr>
        \<lparr>entries = [], faults = []\<rparr>)
     = \<lparr>versions = [version_row 1 None 10 ''h1'', version_row 2 (Some 1) 20 ''h2''],
        deployments = [deployment_row 11 1 ''staging'' 100 False,
                       deployment_row 12 2 ''staging'' 200 False,
                       deployment_row 13 2 ''staging'' 300 True]\<rparr>
   \<and> length (active_rows ''staging''
         [deployment_row 11 1 ''staging'' 100 False, deployment_row 12 2 ''staging'' 200 False,
          deployment_row 13 2 ''staging'' 300 True]) = 1
   \<and> fst (rollback_deployment (\<lambda>p k. take 17 p = take 17 k) ''staging''
        \<lparr>versions = [version_row 1 None 10 ''h1'', version_row 2 (Some 1) 20 ''h2''],
         deployments = [deployment_row 11 1 ''staging'' 100 True,
                        deployment_row 12 2 ''staging'' 200 False]\<rparr>
        \<lparr>entries = [], faults = []\<rparr>)
     = \<lparr>versions = [version_row 1 None 10 ''h1'', version_row 2 (Some 1) 20 ''h2''],
        deployments = [deployment_row 11 1 ''staging'' 100 False,
                       deployment_row 12 2 ''staging'' 200 True]\<rparr>
   \<and> length (active_rows ''staging''
         [deployment_row 11 1 ''staging'' 100 False, deployment_row 12 2 ''staging'' 200 True]) = 1"
  (is "?s \<and> ?one \<and> ?d \<and> ?dn \<and> ?rb \<and> ?rbone")
proof -
  let ?g = "\<lambda>p k. take 17 p = take (17::nat) (k::string)"
  let ?vs = "[version_row 1 None 10 ''h1'', version_row 2 (Some 1) 20 ''h2'']"
  let ?db = "\<lparr>versions = ?vs,
              deployments = [deployment_row 11 1 ''staging'' 100 True,
                             deployment_row 12 2 ''staging'' 200 False]\<rparr>"
  let ?r = "\<lparr>entries = [], faults = []\<rparr>"
  note defs = deploy_version_def rollback_deployment_def get_version_by_hash_def set_active_def
    DeploymentEngine_def redis_ping_def next_fault_def invalidate_cache_def
    invalidate_cache_try_def redis_keys_def redis_delete_def Let_def version_row_def
    deployment_row_def
  have s: ?s by (simp add: defs)
  obtain db3 r3 res3 where d: "deploy_version ?g (UUID 13) 300 ''h2'' ''staging'' ''ci'' ?db ?r = (db3, r3, res3)"
    by (cases "deploy_version ?g (UUID 13) 300 ''h2'' ''staging'' ''ci'' ?db ?r")
  then have d3: "db3 = \<lparr>versions = ?vs,
        deployments = [deployment_row 11 1 ''staging'' 100 False,
                       deployment_row 12 2 ''staging'' 200 False,
                       deployment_row 13 2 ''staging'' 300 True]\<rparr>"
    and "\<exists>resp. res3 = Inr resp"
    by (auto simp: defs)
  then obtain resp3 where d': "deploy_version ?g (UUID 13) 300 ''h2'' ''staging'' ''ci'' ?db ?r = (db3, r3, Inr resp3)"
    using d by auto
  obtain db2 r2 res2 where rb: "rollback_deployment ?g ''staging'' ?db ?r = (db2, r2, res2)"
    by (cases "rollback_deployment ?g ''staging'' ?db ?r")
  then have d2: "db2 = \<lparr>versions = ?vs,
        deployments = [deployment_row 11 1 ''staging'' 100 False,
                       deployment_row 12 2 ''staging'' 200 True]\<rparr>"
    and "\<exists>resp. res2 = Inr resp"
    by (auto simp: defs)
  then obtain resp2 where rb': "rollback_deployment ?g ''staging'' ?db ?r = (db2, r2, Inr resp2)"
    using rb by auto
  note inst = single_active_deployment [OF s, of "''staging''"]
  from inst have one: ?one by simp
  from inst d' have "\<exists>row. active_rows ''staging'' (deployments db3) = [row]" by blast
  then have "length (active_rows ''staging'' (deployments db3)) = 1" by auto
  then have dn: ?dn by (simp add: d3)
  from inst rb' have "\<exists>row. active_rows ''staging'' (deployments db2) = [row]" by blast
  then have "length (active_rows ''staging'' (deployments db2)) = 1" by auto
  then have rbone: ?rbone by (simp add: d2)
  have dd: ?d using d d3 by simp
  have rr: ?rb using rb d2 by simp
  from s one dd dn rr rbone show ?thesis by blast
qed

section \<open>Rollback\<close>

lemma first_desc_single: "first_desc key [x] = Some x"
  by simp

lemma rollback_two_rows:
  assumes dist: "distinct (map dep_id (deployments db))"
    and two: "filter (\<lambda>d. environment d = env) (deployments db) = [prev, cur]
            \<or> filter (\<lambda>d. environment d = env) (deployments db) = [cur, prev]"
    and act: "is_active cur" "\<not> is_active prev"
    and vc: "find (\<lambda>v. pv_id v = version_id cur) (versions db) = Some vc"
    and vp: "find (\<lambda>v. pv_id v = version_id prev) (versions db) = Some vp"
  shows "\<exists>r1 resp.
           rollback_deployment glob_match env db r =
             (db\<lparr>deployments :=
                   map (\<lambda>d. if d = prev then d\<lparr>is_active := True\<rparr>
                             else if d = cur then d\<lparr>is_active := False\<rparr> else d)
                     (deployments db)\<rparr>, r1, Inr resp) \<and>
           rolled_back_from resp = take 8 (hash vc) \<and> rolled_back_to resp = take 8 (hash vp)"
proof -
  let ?ds = "deployments db"
  let ?E = "\<lambda>d. environment d = env"
  have mem: "set (filter ?E ?ds) = {prev, cur}"
    using two
  proof
    assume h: "filter ?E ?ds = [prev, cur]"
    show ?thesis unfolding h by simp
  next
    assume h: "filter ?E ?ds = [cur, prev]"
    show ?thesis unfolding h by auto
  qed
  have "prev \<in> set (filter ?E ?ds)" "cur \<in> set (filter ?E ?ds)"
    unfolding mem by simp_all
  then have pc: "prev \<in> set ?ds" "cur \<in> set ?ds" "environment prev = env" "environment cur = env"
    by simp_all
  have ne: "prev \<noteq> cur" using act by auto
  have idne: "dep_id prev \<noteq> dep_id cur"
    using distinct_ids_eq [OF dist pc(1) pc(2)] ne by auto
  have "filter (\<lambda>d. environment d = env \<and> is_active d) ?ds = filter is_active (filter ?E ?ds)"
    by (simp add: conj_commute)
  also have "\<dots> = [cur]"
    using two
  proof
    assume h: "filter ?E ?ds = [prev, cur]"
    show ?thesis unfolding h using act by simp
  next
    assume h: "filter ?E ?ds = [cur, prev]"
    show ?thesis unfolding h using act by simp
  qed
  finally have a: "filter (\<lambda>d. environment d = env \<and> is_active d) ?ds = [cur]" .
  have "filter (\<lambda>d. environment d = env \<and> dep_id d \<noteq> dep_id cur) ?ds
      = filter (\<lambda>d. dep_id d \<noteq> dep_id cur) (filter ?E ?ds)"
    by (simp add: conj_commute)
  also have "\<dots> = [prev]"
    using two
  proof
    assume h: "filter ?E ?ds = [prev, cur]"
    show ?thesis unfolding h using idne by simp
  next
    assume h: "filter ?E ?ds = [cur, prev]"
    show ?thesis unfolding h using idne by simp
  qed
  finally have b: "filter (\<lambda>d. environment d = env \<and> dep_id d \<noteq> dep_id cur) ?ds = [prev]" .
  obtain ra eng where e: "DeploymentEngine r = (ra, eng)" by (cases "DeploymentEngine r")
  with DeploymentEngine_total [of r] obtain engine where eng: "eng = Inr engine" by auto
  obtain rb inv where i: "invalidate_cache glob_match engine ra env = (rb, inv)"
    by (cases "invalidate_cache glob_match engine ra env")
  with invalidate_cache_total [of glob_match engine ra env] have inv: "inv = Inr ()" by simp
  have ids: "set_active (dep_id prev) True (set_active (dep_id cur) False ?ds)
           = map (\<lambda>d. if d = prev then d\<lparr>is_active := True\<rparr>
                      else if d = cur then d\<lparr>is_active := False\<rparr> else d) ?ds"
    unfolding swap_rows [OF idne]
  proof (rule map_cong [OF refl])
    fix d assume d: "d \<in> set ?ds"
    have "dep_id d = dep_id prev \<longleftrightarrow> d = prev"
      using distinct_ids_eq [OF dist d pc(1)] by auto
    moreover have "dep_id d = dep_id cur \<longleftrightarrow> d = cur"
      using distinct_ids_eq [OF dist d pc(2)] by auto
    ultimately show "(if dep_id d = dep_id prev then d\<lparr>is_active := True\<rparr>
                      else if dep_id d = dep_id cur then d\<lparr>is_active := False\<rparr> else d)
                   = (if d = prev then d\<lparr>is_active := True\<rparr>
                      else if d = cur then d\<lparr>is_active := False\<rparr> else d)"
      by simp
  qed
  show ?thesis
    by (simp add: rollback_deployment_def a b e eng i inv vc vp ids Let_def)
qed

lemma env_rows_after_swap:
  assumes "environment prev = env" "environment cur = env"
  shows "filter (\<lambda>d. environment d = env)
           (map (\<lambda>d. if d = prev then d\<lparr>is_active := True\<rparr>
                      else if d = cur then d\<lparr>is_active := False\<rparr> else d) ds)
       = map (\<lambda>d. if d = prev then d\<lparr>is_active := True\<rparr>
                   else if d = cur then d\<lparr>is_active := False\<rparr> else d)
           (filter (\<lambda>d. environment d = env) ds)"
  by (induction ds) (auto simp: assms)

lemma set_flag_same: "is_active d = b \<Longrightarrow> d\<lparr>is_active := b\<rparr> = d"
  by (cases d) auto

text \<open>
  Claim C4. When an environment has exactly two rows, \<open>d1\<close> inserted first and inactive,
  \<open>d2\<close> inserted second and active, a rollback succeeds; afterwards \<open>d1\<close> is active and
  \<open>d2\<close> inactive, the version references of all rows are the same as before and no row
  was added.
\<close>

theorem rollback_swaps_two_rows:
  assumes dist: "distinct (map dep_id (deployments db))"
    and two: "filter (\<lambda>d. environment d = env) (deployments db) = [d1, d2]"
    and act: "\<not> is_active d1" "is_active d2"
    and v1: "find (\<lambda>v. pv_id v = version_id d1) (versions db) = Some v1"
    and v2: "find (\<lambda>v. pv_id v = version_id d2) (versions db) = Some v2"
  shows "\<exists>db1 r1 resp.
           rollback_deployment glob_match env db r = (db1, r1, Inr resp) \<and>
           filter (\<lambda>d. environment d = env) (deployments db1)
             = [d1\<lparr>is_active := True\<rparr>, d2\<lparr>is_active := False\<rparr>] \<and>
           map version_id (deployments db1) = map version_id (deployments db) \<and>
           length (deployments db1) = length (deployments db) \<and>
           versions db1 = versions db \<and>
           rolled_back_from resp = take 8 (hash v2) \<and>
           rolled_back_to resp = take 8 (hash v1)"
proof -
  let ?g = "\<lambda>d. if d = d1 then d\<lparr>is_active := True\<rparr>
                 else if d = d2 then d\<lparr>is_active := False\<rparr> else d"
  from rollback_two_rows [OF dist disjI1 [OF two] act(2) act(1) v2 v1, of glob_match r]
  obtain r1 resp where
    run: "rollback_deployment glob_match env db r
            = (db\<lparr>deployments := map ?g (deployments db)\<rparr>, r1, Inr resp)"
    and resp: "rolled_back_from resp = take 8 (hash v2)" "rolled_back_to resp = take 8 (hash v1)"
    by blast
  have "d1 \<in> set (filter (\<lambda>d. environment d = env) (deployments db))"
    and "d2 \<in> set (filter (\<lambda>d. environment d = env) (deployments db))"
    unfolding two by simp_all
  then have envs: "environment d1 = env" "environment d2 = env" by simp_all
  have ne: "d1 \<noteq> d2" using act by auto
  have "filter (\<lambda>d. environment d = env) (map ?g (deployments db)) = map ?g [d1, d2]"
    unfolding env_rows_after_swap [OF envs] two ..
  then have f: "filter (\<lambda>d. environment d = env) (map ?g (deployments db))
              = [d1\<lparr>is_active := True\<rparr>, d2\<lparr>is_active := False\<rparr>]"
    using ne by simp
  have vid: "map version_id (map ?g (deployments db)) = map version_id (deployments db)"
    by (rule nth_equalityI) simp_all
  from run resp f vid show ?thesis by simp
qed


theorem rollback_swaps_two_rows_witness:
  "fst (rollback_deployment (=) ''staging''
          \<lparr>versions = [version_row 1 None 10 ''h1'', version_row 2 (Some 1) 20 ''h2''],
           deployments = [deployment_row 11 1 ''staging'' 100 False,
                          deployment_row 21 1 ''prod'' 150 True,
                          deployment_row 12 2 ''staging'' 200 True]\<rparr>
          \<lparr>entries = [], faults = [True]\<rparr>)
   = \<lparr>versions = [version_row 1 None 10 ''h1'', version_row 2 (Some 1) 20 ''h2''],
      deployments = [deployment_row 11 1 ''staging'' 100 True,
                     deployment_row 21 1 ''prod'' 150 True,
                     deployment_row 12 2 ''staging'' 200 False]\<rparr>
   \<and> filter (\<lambda>d. environment d = ''staging'')
        [deployment_row 11 1 ''staging'' 100 True, deployment_row 21 1 ''prod'' 150 True,
         deployment_row 12 2 ''staging'' 200 False]
     = [(deployment_row 11 1 ''staging'' 100 False)\<lparr>is_active := True\<rparr>,
        (deployment_row 12 2 ''staging'' 200 True)\<lparr>is_active := False\<rparr>]"
  (is "fst ?run = ?db1 \<and> ?f")
proof -
  let ?db = "\<lparr>versions = [version_row 1 None 10 ''h1'', version_row 2 (Some 1) 20 ''h2''],
           deployments = [deployment_row 11 1 ''staging'' 100 False,
                          deployment_row 21 1 ''prod'' 150 True,
                          deployment_row 12 2 ''staging'' 200 True]\<rparr>"
  note defs = rollback_deployment_def set_active_def
    DeploymentEngine_def redis_ping_def next_fault_def invalidate_cache_def
    invalidate_cache_try_def redis_keys_def redis_delete_def Let_def version_row_def
    deployment_row_def
  have e: "fst ?run = ?db1" by (simp add: defs)
  have "distinct (map dep_id (deployments ?db))"
    and "filter (\<lambda>d. environment d = ''staging'') (deployments ?db)
       = [deployment_row 11 1 ''staging'' 100 False, deployment_row 12 2 ''staging'' 200 True]"
    and "\<not> is_active (deployment_row 11 1 ''staging'' 100 False)"
    and "is_active (deployment_row 12 2 ''staging'' 200 True)"
    and "find (\<lambda>v. pv_id v = version_id (deployment_row 11 1 ''staging'' 100 False)) (versions ?db)
       = Some (version_row 1 None 10 ''h1'')"
    and "find (\<lambda>v. pv_id v = version_id (deployment_row 12 2 ''staging'' 200 True)) (versions ?db)
       = Some (version_row 2 (Some 1) 20 ''h2'')"
    by (simp_all add: version_row_def deployment_row_def)
  from rollback_swaps_two_rows [OF this, of "(=)" "\<lparr>entries = [], faults = [True]\<rparr>"]
  obtain db1 r1 resp where
    "?run = (db1, r1, Inr resp)"
    "filter (\<lambda>d. environment d = ''staging'') (deployments db1)
       = [(deployment_row 11 1 ''staging'' 100 False)\<lparr>is_active := True\<rparr>,
          (deployment_row 12 2 ''staging'' 200 True)\<lparr>is_active := False\<rparr>]"
    by blast
  with e have ?f by simp
  with e show ?thesis by blast
qed

text \<open>
  Claim C5, as stated, at a concrete input: with two rows in \<open>staging\<close>, the first
  rollback activates the older row, and the second rollback answers with success and
  changes both flags again.
\<close>

theorem second_rollback_counterexample:
  "rollback_deployment (=) ''staging''
      \<lparr>versions = [version_row 1 None 10 ''h1'', version_row 2 (Some 1) 20 ''h2''],
       deployments = [deployment_row 11 1 ''staging'' 100 False,
                      deployment_row 12 2 ''staging'' 200 True]\<rparr>
      \<lparr>entries = [], faults = []\<rparr>
   = (\<lparr>versions = [version_row 1 None 10 ''h1'', version_row 2 (Some 1) 20 ''h2''],
       deployments = [deployment_row 11 1 ''staging'' 100 True,
                      deployment_row 12 2 ''staging'' 200 False]\<rparr>,
      \<lparr>entries = [], faults = []\<rparr>,
      Inr \<lparr>rb_success = True, rolled_back_from = ''h2'', rolled_back_to = ''h1'',
           rb_environment = ''staging'', rb_message = ''Rolled back to h1''\<rparr>)
   \<and> rollback_deployment (=) ''staging''
      \<lparr>versions = [version_row 1 None 10 ''h1'', version_row 2 (Some 1) 20 ''h2''],
       deployments = [deployment_row 11 1 ''staging'' 100 True,
                      deployment_row 12 2 ''staging'' 200 False]\<rparr>
      \<lparr>entries = [], faults = []\<rparr>
   = (\<lparr>versions = [version_row 1 None 10 ''h1'', version_row 2 (Some 1) 20 ''h2''],
       deployments = [deployment_row 11 1 ''staging'' 100 False,
                      deployment_row 12 2 ''staging'' 200 True]\<rparr>,
      \<lparr>entries = [], faults = []\<rparr>,
      Inr \<lparr>rb_success = True, rolled_back_from = ''h1'', rolled_back_to = ''h2'',
           rb_environment = ''staging'', rb_message = ''Rolled back to h2''\<rparr>)"
  by (simp add: rollback_deployment_def set_active_def
    DeploymentEngine_def redis_ping_def next_fault_def invalidate_cache_def
    invalidate_cache_try_def redis_keys_def redis_delete_def Let_def version_row_def
    deployment_row_def)

text \<open>
  Claim C5, amended. In an environment with exactly two rows a second rollback does not
  fail: it succeeds and swaps the two rows back, so that after two rollbacks \<open>d2\<close> is
  active and \<open>d1\<close> inactive again.
\<close>

theorem second_rollback_swaps_back:
  assumes dist: "distinct (map dep_id (deployments db))"
    and two: "filter (\<lambda>d. environment d = env) (deployments db) = [d1, d2]"
    and act: "\<not> is_active d1" "is_active d2"
    and v1: "find (\<lambda>v. pv_id v = version_id d1) (versions db) = Some v1"
    and v2: "find (\<lambda>v. pv_id v = version_id d2) (versions db) = Some v2"
  shows "\<exists>db1 r1 resp1 db2 r2 resp2.
           rollback_deployment glob_match env db r = (db1, r1, Inr resp1) \<and>
           filter (\<lambda>d. environment d = env) (deployments db1)
             = [d1\<lparr>is_active := True\<rparr>, d2\<lparr>is_active := False\<rparr>] \<and>
           rollback_deployment glob_match env db1 r1 = (db2, r2, Inr resp2) \<and>
           filter (\<lambda>d. environment d = env) (deployments db2) = [d1, d2] \<and>
           length (deployments db2) = length (deployments db) \<and>
           rolled_back_from resp2 = take 8 (hash v1) \<and>
           rolled_back_to resp2 = take 8 (hash v2)"
proof -
  let ?g = "\<lambda>d. if d = d1 then d\<lparr>is_active := True\<rparr>
                 else if d = d2 then d\<lparr>is_active := False\<rparr> else d"
  let ?a = "d1\<lparr>is_active := True\<rparr>" and ?b = "d2\<lparr>is_active := False\<rparr>"
  let ?h = "\<lambda>d. if d = ?b then d\<lparr>is_active := True\<rparr>
                 else if d = ?a then d\<lparr>is_active := False\<rparr> else d"
  let ?db1 = "db\<lparr>deployments := map ?g (deployments db)\<rparr>"
  from rollback_two_rows [OF dist disjI1 [OF two] act(2) act(1) v2 v1, of glob_match r]
  obtain r1 resp1 where
    run1: "rollback_deployment glob_match env db r = (?db1, r1, Inr resp1)"
    by blast
  have "d1 \<in> set (filter (\<lambda>d. environment d = env) (deployments db))"
    and "d2 \<in> set (filter (\<lambda>d. environment d = env) (deployments db))"
    unfolding two by simp_all
  then have envs: "environment d1 = env" "environment d2 = env" by simp_all
  have ne: "d1 \<noteq> d2" using act by auto
  have "filter (\<lambda>d. environment d = env) (map ?g (deployments db)) = map ?g [d1, d2]"
    unfolding env_rows_after_swap [OF envs] two ..
  then have f1: "filter (\<lambda>d. environment d = env) (deployments ?db1) = [?a, ?b]"
    using ne by simp
  have ids: "map dep_id (map ?g (deployments db)) = map dep_id (deployments db)"
    by (rule nth_equalityI) simp_all
  have sel: "deployments ?db1 = map ?g (deployments db)" by simp
  have "map dep_id (deployments ?db1) = map dep_id (deployments db)"
    unfolding sel by (rule ids)
  then have dist1: "distinct (map dep_id (deployments ?db1))"
    using dist by (simp only:)
  have va: "find (\<lambda>v. pv_id v = version_id ?a) (versions ?db1) = Some v1" using v1 by simp
  have vb: "find (\<lambda>v. pv_id v = version_id ?b) (versions ?db1) = Some v2" using v2 by simp
  have acta: "is_active ?a" and actb: "\<not> is_active ?b" by simp_all
  from rollback_two_rows [OF dist1 disjI2 [OF f1] acta actb va vb, of glob_match r1]
  obtain r2 resp2 where
    run2: "rollback_deployment glob_match env ?db1 r1
             = (?db1\<lparr>deployments := map ?h (deployments ?db1)\<rparr>, r2, Inr resp2)"
    and resp2: "rolled_back_from resp2 = take 8 (hash v1)" "rolled_back_to resp2 = take 8 (hash v2)"
    by blast
  have envs1: "environment ?b = env" "environment ?a = env" using envs by simp_all
  have ne1: "?a \<noteq> ?b" using ne by (metis acta actb)
  have restored: "?a\<lparr>is_active := False\<rparr> = d1" "?b\<lparr>is_active := True\<rparr> = d2"
    using act by (simp_all add: set_flag_same)
  have "filter (\<lambda>d. environment d = env) (map ?h (deployments ?db1)) = map ?h [?a, ?b]"
    unfolding env_rows_after_swap [OF envs1] f1 ..
  also have "\<dots> = [d1, d2]" using ne1 restored by simp
  finally have f2: "filter (\<lambda>d. environment d = env)
                      (deployments (?db1\<lparr>deployments := map ?h (deployments ?db1)\<rparr>)) = [d1, d2]"
    by simp
  have len: "length (deployments (?db1\<lparr>deployments := map ?h (deployments ?db1)\<rparr>))
           = length (deployments db)" by simp
  from run1 f1 run2 f2 len resp2 show ?thesis by blast
qed

theorem second_rollback_swaps_back_witness:
  "fst (rollback_deployment (=) ''staging''
          (fst (rollback_deployment (=) ''staging''
             \<lparr>versions = [version_row 1 None 10 ''h1'', version_row 2 (Some 1) 20 ''h2''],
              deployments = [deployment_row 11 1 ''staging'' 100 False,
                             deployment_row 12 2 ''staging'' 200 True]\<rparr>
             \<lparr>entries = [], faults = []\<rparr>))
          (fst (snd (rollback_deployment (=) ''staging''
             \<lparr>versions = [version_row 1 None 10 ''h1'', version_row 2 (Some 1) 20 ''h2''],
              deployments = [deployment_row 11 1 ''staging'' 100 False,
                             deployment_row 12 2 ''staging'' 200 True]\<rparr>
             \<lparr>entries = [], faults = []\<rparr>))))
   = \<lparr>versions = [version_row 1 None 10 ''h1'', version_row 2 (Some 1) 20 ''h2''],
      deployments = [deployment_row 11 1 ''staging'' 100 False,
                     deployment_row 12 2 ''staging'' 200 True]\<rparr>
   \<and> filter (\<lambda>d. environment d = ''staging'')
        [deployment_row 11 1 ''staging'' 100 False, deployment_row 12 2 ''staging'' 200 True]
     = [deployment_row 11 1 ''staging'' 100 False, deployment_row 12 2 ''staging'' 200 True]"
  (is "fst (rollback_deployment (=) ''staging'' (fst ?run1) (fst (snd ?run1))) = ?db \<and> ?f")
proof -
  note defs = rollback_deployment_def set_active_def
    DeploymentEngine_def redis_ping_def next_fault_def invalidate_cache_def
    invalidate_cache_try_def redis_keys_def redis_delete_def Let_def version_row_def
    deployment_row_def
  have e: "fst (rollback_deployment (=) ''staging'' (fst ?run1) (fst (snd ?run1))) = ?db"
    by (simp add: defs)
  have "distinct (map dep_id (deployments ?db))"
    and "filter (\<lambda>d. environment d = ''staging'') (deployments ?db)
       = [deployment_row 11 1 ''staging'' 100 False, deployment_row 12 2 ''staging'' 200 True]"
    and "\<not> is_active (deployment_row 11 1 ''staging'' 100 False)"
    and "is_active (deployment_row 12 2 ''staging'' 200 True)"
    and "find (\<lambda>v. pv_id v = version_id (deployment_row 11 1 ''staging'' 100 False)) (versions ?db)
       = Some (version_row 1 None 10 ''h1'')"
    and "find (\<lambda>v. pv_id v = version_id (deployment_row 12 2 ''staging'' 200 True)) (versions ?db)
       = Some (version_row 2 (Some 1) 20 ''h2'')"
    by (simp_all add: version_row_def deployment_row_def)
  from second_rollback_swaps_back [OF this, of "(=)" "\<lparr>entries = [], faults = []\<rparr>"]
  obtain db1 r1 resp1 db2 r2 resp2 where
    "?run1 = (db1, r1, Inr resp1)"
    "rollback_deployment (=) ''staging'' db1 r1 = (db2, r2, Inr resp2)"
    "filter (\<lambda>d. environment d = ''staging'') (deployments db2)
       = [deployment_row 11 1 ''staging'' 100 False, deployment_row 12 2 ''staging'' 200 True]"
    by blast
  with e have ?f by simp
  with e show ?thesis by blast
qed

section \<open>Default metadata values\<close>

lemma create_version_again:
  assumes first: "create_version jd sha id_a now_a c md_a tg_a au_a msg_a db par_a = (db', Inr v)"
    and same: "compute_hash jd sha c md_b = compute_hash jd sha c md_a"
  shows "create_version jd sha id_b now_b c md_b tg_b au_b msg_b db' par_b = (db', Inr v)"
proof -
  let ?h = "compute_hash jd sha c md_a"
  from create_version_cases [OF first]
  have "find (\<lambda>x. hash x = ?h) db' = Some v"
  proof (elim disjE conjE)
    assume "find (\<lambda>x. hash x = ?h) db = Some v" "db' = db"
    then show ?thesis by simp
  next
    assume "find (\<lambda>x. hash x = ?h) db = None" "db' = db @ [v]"
      and v: "v = \<lparr>pv_id = id_a, content = c, hash = ?h, parent_id = par_a, author = au_a,
                  timestamp = now_a, tags = tg_a,
                  prompt_metadata = AList.update ''commit_message'' (PyStr msg_a) md_a,
                  created_at = now_a\<rparr>"
    moreover from v have "hash v = ?h" by simp
    ultimately show ?thesis by (simp add: find_append_one)
  qed
  then show ?thesis by (simp add: create_version_def same)
qed


text \<open>
  Claim C10. Absent keys are replaced by fixed defaults: \<open>model\<close> by the empty string,
  \<open>temperature\<close> by \<open>0.7\<close> and \<open>version\<close> by \<open>1.0.0\<close>, so the empty metadata hashes
  like the metadata that states exactly these values, and a commit that states them
  returns the row stored by a commit of the same content with empty metadata.
\<close>

theorem compute_hash_defaults:
  "compute_hash json_dumps sha256_hex prompt [] =
   compute_hash json_dumps sha256_hex prompt
     [(''model'', PyStr ''''), (''temperature'', PyFloat (7 / 10)), (''version'', PyStr ''1.0.0'')]
   \<and> (create_version json_dumps sha256_hex id_a now_a prompt [] tags_a author_a message_a db parent_a
         = (db', Inr v) \<longrightarrow>
       create_version json_dumps sha256_hex id_b now_b prompt
         [(''model'', PyStr ''''), (''temperature'', PyFloat (7 / 10)), (''version'', PyStr ''1.0.0'')]
         tags_b author_b message_b db' parent_b
         = (db', Inr v))"
proof -
  have h: "compute_hash json_dumps sha256_hex prompt
             [(''model'', PyStr ''''), (''temperature'', PyFloat (7 / 10)),
              (''version'', PyStr ''1.0.0'')]
         = compute_hash json_dumps sha256_hex prompt []"
    by (simp add: compute_hash_def dict_get_def)
  show ?thesis
    using h create_version_again [OF _ h] by simp
qed

theorem compute_hash_defaults_witness:
  "create_version (\<lambda>d. concat (map (\<lambda>(k, v). k @ (case v of PyStr s \<Rightarrow> s | _ \<Rightarrow> ''#'')) d)) rev
     (UUID 1) 10 ''Hi'' [] (PyList []) ''alice'' ''first'' [] None
   = ([\<lparr>pv_id = UUID 1, content = ''Hi'', hash = ''0.0.1noisrev#erutarepmetledomiHtnetnoc'',
        parent_id = None, author = ''alice'', timestamp = 10, tags = PyList [],
        prompt_metadata = [(''commit_message'', PyStr ''first'')], created_at = 10\<rparr>],
      Inr \<lparr>pv_id = UUID 1, content = ''Hi'', hash = ''0.0.1noisrev#erutarepmetledomiHtnetnoc'',
        parent_id = None, author = ''alice'', timestamp = 10, tags = PyList [],
        prompt_metadata = [(''commit_message'', PyStr ''first'')], created_at = 10\<rparr>)
   \<and> create_version (\<lambda>d. concat (map (\<lambda>(k, v). k @ (case v of PyStr s \<Rightarrow> s | _ \<Rightarrow> ''#'')) d)) rev
     (UUID 2) 20 ''Hi''
     [(''model'', PyStr ''''), (''temperature'', PyFloat (7 / 10)), (''version'', PyStr ''1.0.0'')]
     (PyList []) ''bob'' ''second''
     [\<lparr>pv_id = UUID 1, content = ''Hi'', hash = ''0.0.1noisrev#erutarepmetledomiHtnetnoc'',
        parent_id = None, author = ''alice'', timestamp = 10, tags = PyList [],
        prompt_metadata = [(''commit_message'', PyStr ''first'')], created_at = 10\<rparr>]
     (Some (UUID 1))
   = ([\<lparr>pv_id = UUID 1, content = ''Hi'', hash = ''0.0.1noisrev#erutarepmetledomiHtnetnoc'',
        parent_id = None, author = ''alice'', timestamp = 10, tags = PyList [],
        prompt_metadata = [(''commit_message'', PyStr ''first'')], created_at = 10\<rparr>],
      Inr \<lparr>pv_id = UUID 1, content = ''Hi'', hash = ''0.0.1noisrev#erutarepmetledomiHtnetnoc'',
        parent_id = None, author = ''alice'', timestamp = 10, tags = PyList [],
        prompt_metadata = [(''commit_message'', PyStr ''first'')], created_at = 10\<rparr>)"
  (is "?first \<and> ?second")
proof -
  have first: ?first
    by (simp add: create_version_empty_table compute_hash_def dict_get_def)
  from compute_hash_defaults
    [of "\<lambda>d. concat (map (\<lambda>(k, v). k @ (case v of PyStr s \<Rightarrow> s | _ \<Rightarrow> ''#'')) d)" rev "''Hi''"
        "UUID 1" 10 "PyList []" "''alice''" "''first''" "[]" None _ _ "UUID 2" 20 "PyList []"
        "''bob''" "''second''" "Some (UUID 1)"]
    first
  have ?second by blast
  with first show ?thesis by blast
qed


section \<open>Cache failures stay inside the engine\<close>

lemma deploy_version_no_cache_error:
  "snd (snd (deploy_version glob_match new_id now version_hash env actor db r)) \<noteq> Inl RedisError"
proof -
  obtain db1 r1 res where
    run: "deploy_version glob_match new_id now version_hash env actor db r = (db1, r1, res)"
    by (cases "deploy_version glob_match new_id now version_hash env actor db r")
  have "res \<noteq> Inl RedisError"
  proof (cases "get_version_by_hash (versions db) version_hash")
    case None
    with run show ?thesis by (auto simp: deploy_version_def)
  next
    case (Some version)
    show ?thesis
    proof (cases "new_id \<in> set (map dep_id (deployments db))")
      case True
      with run Some show ?thesis by (auto simp: deploy_version_def Let_def)
    next
      case False
      obtain ra eng where e: "DeploymentEngine r = (ra, eng)" by (cases "DeploymentEngine r")
      with DeploymentEngine_total [of r] obtain engine where eng: "eng = Inr engine" by auto
      obtain rb inv where i: "invalidate_cache glob_match engine ra env = (rb, inv)"
        by (cases "invalidate_cache glob_match engine ra env")
      with invalidate_cache_total [of glob_match engine ra env] have inv: "inv = Inr ()" by simp
      from run Some False e eng i inv show ?thesis
        by (auto simp: deploy_version_def Let_def)
    qed
  qed
  with run show ?thesis by simp
qed

lemma rollback_deployment_no_cache_error:
  "snd (snd (rollback_deployment glob_match env db r)) \<noteq> Inl RedisError"
proof -
  obtain db1 r1 res where
    run: "rollback_deployment glob_match env db r = (db1, r1, res)"
    by (cases "rollback_deployment glob_match env db r")
  from rollback_deployment_cases [OF run] have "res \<noteq> Inl RedisError"
    by (auto split: option.splits)
  with run show ?thesis by simp
qed

text \<open>
  Claim C9. The constructor of the engine and the three cache operations never raise:
  each returns normally for every engine, server state, fault schedule and argument.
  When the cache is unavailable or anything inside the \<open>try\<close> block fails, the look-up
  returns \<open>None\<close> (a miss) and populate and invalidate leave the stored entries as they
  were. Hence no failure of the cache comes out of a deploy or a rollback.
\<close>

theorem cache_operations_never_raise:
  "(\<exists>e. snd (DeploymentEngine r) = Inr e)
   \<and> (\<exists>v. snd (get_from_cache json_loads engine r env name) = Inr v)
   \<and> (\<not> redis_available engine \<or> (\<exists>e. snd (get_from_cache_try json_loads r env name) = Inl e) \<longrightarrow>
        snd (get_from_cache json_loads engine r env name) = Inr None)
   \<and> snd (set_cache json_dumps engine r env prompt_data name ttl) = Inr ()
   \<and> (\<not> redis_available engine \<or>
        (\<exists>e. snd (set_cache_try json_dumps r env prompt_data name ttl) = Inl e) \<longrightarrow>
        entries (fst (set_cache json_dumps engine r env prompt_data name ttl)) = entries r)
   \<and> snd (invalidate_cache glob_match engine r env) = Inr ()
   \<and> (\<not> redis_available engine \<or> (\<exists>e. snd (invalidate_cache_try glob_match r env) = Inl e) \<longrightarrow>
        entries (fst (invalidate_cache glob_match engine r env)) = entries r)
   \<and> snd (snd (deploy_version glob_match new_id now version_hash env actor db r)) \<noteq> Inl RedisError
   \<and> snd (snd (rollback_deployment glob_match env db r)) \<noteq> Inl RedisError"
  using DeploymentEngine_total [of r]
    deploy_version_no_cache_error [of glob_match new_id now version_hash env actor db r]
    rollback_deployment_no_cache_error [of glob_match env db r]
    get_from_cache_total [of json_loads engine r env name]
    get_from_cache_miss [of engine json_loads r env name]
    set_cache_total [of json_dumps engine r env prompt_data name ttl]
    set_cache_noop [of engine json_dumps r env prompt_data name ttl]
    invalidate_cache_total [of glob_match engine r env]
    invalidate_cache_noop [of engine glob_match r env]
  by blast

theorem cache_operations_never_raise_witness:
  "snd (get_from_cache_try (Inr :: string \<Rightarrow> error + string)
          \<lparr>entries = [(''promptops:prompt:prod:default'', (3600, ''snapshot''))], faults = [True]\<rparr>
          ''prod'' None) = Inl RedisError
   \<and> snd (get_from_cache (Inr :: string \<Rightarrow> error + string) \<lparr>redis_available = True\<rparr>
          \<lparr>entries = [(''promptops:prompt:prod:default'', (3600, ''snapshot''))], faults = [True]\<rparr>
          ''prod'' None) = Inr None
   \<and> snd (set_cache_try (Inr :: string \<Rightarrow> error + string)
          \<lparr>entries = [(''promptops:prompt:prod:default'', (3600, ''snapshot''))], faults = [True]\<rparr>
          ''prod'' ''new'' None 3600) = Inl RedisError
   \<and> entries (fst (set_cache (Inr :: string \<Rightarrow> error + string) \<lparr>redis_available = True\<rparr>
          \<lparr>entries = [(''promptops:prompt:prod:default'', (3600, ''snapshot''))], faults = [True]\<rparr>
          ''prod'' ''new'' None 3600))
       = [(''promptops:prompt:prod:default'', (3600, ''snapshot''))]
   \<and> snd (invalidate_cache_try (\<lambda>p k. take 16 p = take 16 k)
          \<lparr>entries = [(''promptops:prompt:prod:default'', (3600, ''snapshot''))],
            faults = [False, True]\<rparr>
          ''prod'') = Inl RedisError
   \<and> entries (fst (invalidate_cache (\<lambda>p k. take 16 p = take 16 k) \<lparr>redis_available = True\<rparr>
          \<lparr>entries = [(''promptops:prompt:prod:default'', (3600, ''snapshot''))],
            faults = [False, True]\<rparr>
          ''prod''))
       = [(''promptops:prompt:prod:default'', (3600, ''snapshot''))]"
  (is "?g \<and> ?G \<and> ?s \<and> ?S \<and> ?i \<and> ?I")
proof -
  have g: ?g
    by (simp add: get_from_cache_try_def redis_get_def next_fault_def get_cache_key_def)
  have s: ?s
    by (simp add: set_cache_try_def redis_setex_def next_fault_def get_cache_key_def)
  have i: ?i
    by (simp add: invalidate_cache_try_def redis_keys_def redis_delete_def next_fault_def)
  have "?G \<and> ?S"
    using g s
      cache_operations_never_raise
        [of "\<lparr>entries = [(''promptops:prompt:prod:default'', (3600, ''snapshot''))], faults = [True]\<rparr>"
            "Inr :: string \<Rightarrow> error + string" "\<lparr>redis_available = True\<rparr>" "''prod''" None
            "Inr :: string \<Rightarrow> error + string" "''new''" 3600 "\<lambda>p k. take 16 p = take 16 k"]
    by simp
  moreover have ?I
    using i
      cache_operations_never_raise
        [of "\<lparr>entries = [(''promptops:prompt:prod:default'', (3600, ''snapshot''))],
              faults = [False, True]\<rparr>"
            "Inr :: string \<Rightarrow> error + string" "\<lparr>redis_available = True\<rparr>" "''prod''" None
            "Inr :: string \<Rightarrow> error + string" "''new''" 3600 "\<lambda>p k. take 16 p = take 16 k"]
    by simp
  ultimately show ?thesis using g s i by blast
qed

end
